theory Spec2Isabelle
  imports Main "HOL-Library.Sublist"
begin

chapter \<open>The error-normalisation and sanitisation pipeline\<close>

text \<open>
  A shallow embedding of \<^verbatim>\<open>SanitizationConfig\<close> (dataSanitizer),
  \<^verbatim>\<open>ErrorProcessor\<close> and \<^verbatim>\<open>ErrorHandler\<close>. The first part holds the
  definitions, each translated from the TypeScript function whose name it keeps; the
  second part holds the properties.
\<close>

section \<open>Strings\<close>

text \<open>
  A JavaScript string is modelled as a \<^typ>\<open>string\<close>: one \<^typ>\<open>char\<close> per UTF-16
  code unit, for code units below 256 (the Latin-1 range). \<^verbatim>\<open>length\<close> is then the
  JavaScript \<^verbatim>\<open>length\<close>.
\<close>

definition lowerChar :: "char \<Rightarrow> char" where
  \<comment> \<open>\<^verbatim>\<open>toLowerCase\<close> on one code unit: A-Z, and the Latin-1 capitals but the
      multiplication sign.\<close>
  "lowerChar c =
     (let n = of_char c :: nat
      in if (65 \<le> n \<and> n \<le> 90) \<or> (192 \<le> n \<and> n \<le> 222 \<and> n \<noteq> 215)
         then char_of (n + 32) else c)"

definition toLowerCase :: "string \<Rightarrow> string" where
  "toLowerCase s = map lowerChar s"

fun startsWith :: "string \<Rightarrow> string \<Rightarrow> bool" where
  "startsWith s [] = True"
| "startsWith [] (p # ps) = False"
| "startsWith (c # cs) (p # ps) = (c = p \<and> startsWith cs ps)"

fun indexOf :: "string \<Rightarrow> string \<Rightarrow> nat option" where
  \<comment> \<open>\<^verbatim>\<open>s.indexOf(t)\<close>; \<open>None\<close> is JavaScript's -1.\<close>
  "indexOf [] t = (if t = [] then Some 0 else None)"
| "indexOf (c # cs) t =
     (if startsWith (c # cs) t then Some 0 else map_option Suc (indexOf cs t))"

definition str_includes :: "string \<Rightarrow> string \<Rightarrow> bool" where
  \<comment> \<open>\<^verbatim>\<open>s.includes(t)\<close>\<close>
  "str_includes s t = (indexOf s t \<noteq> None)"

definition substring0 :: "string \<Rightarrow> int \<Rightarrow> string" where
  \<comment> \<open>\<^verbatim>\<open>s.substring(0, n)\<close>: a negative \<open>n\<close> counts as 0, one past the end as
      the length.\<close>
  "substring0 s n = take (nat n) s"

definition isWhitespace :: "char \<Rightarrow> bool" where
  \<comment> \<open>The white space and line terminators that \<^verbatim>\<open>trim\<close> removes, below 256.\<close>
  "isWhitespace c = (of_char c \<in> {9, 10, 11, 12, 13, 32, 160 :: nat})"

definition trim :: "string \<Rightarrow> string" where
  "trim s = rev (dropWhile isWhitespace (rev (dropWhile isWhitespace s)))"

fun showDigits :: "nat \<Rightarrow> string" where
  \<comment> \<open>The decimal digits of a natural number, as a template literal prints them.\<close>
  "showDigits n =
     (if n < 10 then [char_of (48 + n)]
      else showDigits (n div 10) @ [char_of (48 + n mod 10)])"

definition showInt :: "int \<Rightarrow> string" where
  "showInt i = (if i < 0 then CHR ''-'' # showDigits (nat (- i)) else showDigits (nat i))"

section \<open>Values\<close>

text \<open>
  The data that reaches the sanitizer: JSON-like trees. An object is the list of its own
  enumerable properties in the order \<^verbatim>\<open>Object.keys\<close> gives them. Numbers are
  integers here: no function below computes with a number other than an HTTP status and
  a length. A tree is finite, so an object graph with a cycle is not a value of this
  type; the store further down has them.
\<close>

datatype jsval =
    JUndefined
  | JNull
  | JBool bool
  | JNum int
  | JStr string
  | JArr "jsval list"
  | JObj "(string \<times> jsval) list"

fun isObject :: "jsval \<Rightarrow> bool" where
  \<comment> \<open>\<^verbatim>\<open>typeof v === "object" && v !== null\<close>\<close>
  "isObject (JArr _) = True"
| "isObject (JObj _) = True"
| "isObject _ = False"

fun truthy :: "jsval \<Rightarrow> bool" where
  "truthy JUndefined = False"
| "truthy JNull = False"
| "truthy (JBool b) = b"
| "truthy (JNum n) = (n \<noteq> 0)"
| "truthy (JStr s) = (s \<noteq> [])"
| "truthy (JArr _) = True"
| "truthy (JObj _) = True"

text \<open>What is thrown: an \<^verbatim>\<open>Error\<close> of the run-time system, with its message.\<close>

datatype js_exn = TypeError string | RangeError string

fun exnMessage :: "js_exn \<Rightarrow> string" where
  "exnMessage (TypeError m) = m"
| "exnMessage (RangeError m) = m"

section \<open>SanitizationConfig\<close>

record SanitizationParams =
  sensitiveKeys :: "string list"
  maskValue :: string
  skipProperties :: "string list option"
  truncateUrls :: "bool option"
  maxStringLength :: "int option"

definition defaultSanitizationParams :: SanitizationParams where
  "defaultSanitizationParams =
     \<lparr> sensitiveKeys =
         [''password'', ''apiKey'', ''secret'', ''authorization'', ''token'',
          ''accessToken'', ''refreshToken'', ''cookie''],
       maskValue = ''********'',
       skipProperties = None,
       truncateUrls = None,
       maxStringLength = None \<rparr>"

definition truncateString :: "string \<Rightarrow> int \<Rightarrow> string" where
  "truncateString v maxLength =
     (if int (length v) > maxLength then substring0 v maxLength @ ''...'' else v)"

definition sanitizeUrl :: "string \<Rightarrow> string" where
  "sanitizeUrl v =
     (if str_includes v ''http''
      then (case indexOf v ''http'' of Some httpIndex \<Rightarrow> take httpIndex v @ ''...'' | None \<Rightarrow> v)
      else v)"

definition isSkipped :: "SanitizationParams \<Rightarrow> string \<Rightarrow> bool" where
  \<comment> \<open>The test of the \<^verbatim>\<open>skipProperties\<close> loop: the key is deleted from the copy.\<close>
  "isSkipped config key =
     (case skipProperties config of
        None \<Rightarrow> False
      | Some props \<Rightarrow>
          length props > 0 \<and>
          list_ex (\<lambda>prop. str_includes (toLowerCase key) (toLowerCase prop)) props)"

definition isSensitive :: "SanitizationParams \<Rightarrow> string \<Rightarrow> bool" where
  \<comment> \<open>\<^verbatim>\<open>sensitiveKeysSet.has(key.toLowerCase()) || config.sensitiveKeys.some(...)\<close>\<close>
  "isSensitive config key =
     (toLowerCase key \<in> set (map toLowerCase (sensitiveKeys config)) \<or>
      list_ex (\<lambda>sensitiveKey. str_includes (toLowerCase key) (toLowerCase sensitiveKey))
        (sensitiveKeys config))"

definition processString :: "SanitizationParams \<Rightarrow> string \<Rightarrow> string" where
  \<comment> \<open>What the object branch does to a string under a key that is not sensitive.\<close>
  "processString config v =
     (let processedValue =
            (if truncateUrls config = Some True \<and> str_includes v ''http''
             then sanitizeUrl v else v)
      in case maxStringLength config of
           None \<Rightarrow> processedValue
         | Some n \<Rightarrow> if n \<noteq> 0 then truncateString processedValue n else processedValue)"

fun sanitizeData :: "SanitizationParams \<Rightarrow> jsval \<Rightarrow> jsval" where
  "sanitizeData config (JStr s) =
     (case maxStringLength config of
        None \<Rightarrow> JStr s
      | Some n \<Rightarrow> if n \<noteq> 0 then JStr (truncateString s n) else JStr s)"
| "sanitizeData config (JArr items) =
     JArr (map (\<lambda>item. if isObject item then sanitizeData config item else item) items)"
| "sanitizeData config (JObj props) =
     JObj (map (\<lambda>(key, v).
              if isSensitive config key then (key, JStr (maskValue config))
              else (case v of
                      JStr s \<Rightarrow> (key, JStr (processString config s))
                    | _ \<Rightarrow> if isObject v then (key, sanitizeData config v) else (key, v)))
            (filter (\<lambda>(key, v). \<not> isSkipped config key) props))"
| "sanitizeData config v = v"

definition sanitizeString :: "string \<Rightarrow> string" where
  \<comment> \<open>Drops every double quote, single quote, backslash and angle bracket, then
      trims; the empty string for an empty one.\<close>
  "sanitizeString v =
     (if v = [] then []
      else trim (filter (\<lambda>c. c \<notin> set [CHR 0x22, CHR 0x27, CHR 0x5C, CHR ''<'', CHR ''>'']) v))"

fun allFields :: "jsval \<Rightarrow> (string \<times> jsval) list" where
  \<comment> \<open>Every field of a value, at any depth below objects and arrays.\<close>
  "allFields (JArr items) = concat (map allFields items)"
| "allFields (JObj props) = concat (map (\<lambda>(key, v). (key, v) # allFields v) props)"
| "allFields v = []"

text \<open>
  Where a field is: the keys and array indices that lead to it from the root, as in
  \<^verbatim>\<open>data.users[0].password\<close>. \<open>lookupPath\<close> reads the value at a path, and
  is \<open>None\<close> where the path leaves the value. A path is kept by a policy when none
  of its keys is deleted by \<^verbatim>\<open>skipProperties\<close> and none is sensitive.
\<close>

datatype step = Key string | Index nat

fun lookupPath :: "jsval \<Rightarrow> step list \<Rightarrow> jsval option" where
  "lookupPath v [] = Some v"
| "lookupPath (JObj props) (Key k # p) =
     (case map_of props k of None \<Rightarrow> None | Some v \<Rightarrow> lookupPath v p)"
| "lookupPath (JArr items) (Index i # p) =
     (if i < length items then lookupPath (items ! i) p else None)"
| "lookupPath v (s # p) = None"

fun pathKept :: "SanitizationParams \<Rightarrow> step list \<Rightarrow> bool" where
  "pathKept config [] = True"
| "pathKept config (Key k # p) =
     (\<not> isSkipped config k \<and> \<not> isSensitive config k \<and> pathKept config p)"
| "pathKept config (Index i # p) = pathKept config p"

fun distinctKeys :: "jsval \<Rightarrow> bool" where
  \<comment> \<open>Every object of the value has each of its keys once, as a JavaScript object
      does.\<close>
  "distinctKeys (JArr items) = (\<forall>item \<in> set items. distinctKeys item)"
| "distinctKeys (JObj props) =
     (distinct (map fst props) \<and> (\<forall>(key, v) \<in> set props. distinctKeys v))"
| "distinctKeys v = True"

section \<open>The sanitizer on a store\<close>

text \<open>
  \<^verbatim>\<open>sanitizeData\<close> once more, on objects that have an identity and can be written to:
  a store is the list of the objects allocated so far, an address is a position in it,
  and a value is a primitive or the address of an object. The object spread and
  \<^verbatim>\<open>Array.prototype.map\<close> allocate; \<^verbatim>\<open>delete\<close> and the assignments to
  \<^verbatim>\<open>sanitizedObject[key]\<close> write to the store. An object graph may have cycles
  here, on which the recursion of \<^verbatim>\<open>sanitizeData\<close> does not end: the first argument
  bounds the depth of the calls, as the call stack does, and at depth 0 the call throws
  the \<^verbatim>\<open>RangeError\<close> of the run-time system. An address beyond the store is no
  value of a program; the model stops there with an error.
\<close>

type_synonym address = nat

datatype hval = HUndefined | HNull | HBool bool | HNum int | HStr string | HRef address

datatype hobj = HArray "hval list" | HObject "(string \<times> hval) list"

type_synonym store = "hobj list"

definition allocate :: "hobj \<Rightarrow> store \<Rightarrow> store \<times> address" where
  "allocate obj h = (h @ [obj], length h)"

definition lookupObject :: "store \<Rightarrow> address \<Rightarrow> hobj option" where
  "lookupObject h a = (if a < length h then Some (h ! a) else None)"

definition pushItem :: "address \<Rightarrow> hval \<Rightarrow> store \<Rightarrow> store" where
  \<comment> \<open>\<^verbatim>\<open>map\<close> stores the next element of its result.\<close>
  "pushItem a v h =
     (case lookupObject h a of
        Some (HArray items) \<Rightarrow> h[a := HArray (items @ [v])]
      | _ \<Rightarrow> h)"

fun updateProperty :: "string \<Rightarrow> hval \<Rightarrow> (string \<times> hval) list \<Rightarrow> (string \<times> hval) list" where
  "updateProperty key v [] = []"
| "updateProperty key v ((k, w) # props) =
     (if k = key then (k, v) # props else (k, w) # updateProperty key v props)"

definition setProperty :: "address \<Rightarrow> string \<Rightarrow> hval \<Rightarrow> store \<Rightarrow> store" where
  \<comment> \<open>\<^verbatim>\<open>sanitizedObject[key] = v\<close>, for a key that the object has.\<close>
  "setProperty a key v h =
     (case lookupObject h a of
        Some (HObject props) \<Rightarrow> h[a := HObject (updateProperty key v props)]
      | _ \<Rightarrow> h)"

definition readProperty :: "store \<Rightarrow> address \<Rightarrow> string \<Rightarrow> hval" where
  \<comment> \<open>\<^verbatim>\<open>sanitizedObject[key]\<close>\<close>
  "readProperty h a key =
     (case lookupObject h a of
        Some (HObject props) \<Rightarrow> (case map_of props key of Some v \<Rightarrow> v | None \<Rightarrow> HUndefined)
      | _ \<Rightarrow> HUndefined)"

fun isReference :: "hval \<Rightarrow> bool" where
  \<comment> \<open>\<^verbatim>\<open>typeof v === "object" && v !== null\<close>\<close>
  "isReference (HRef a) = True"
| "isReference v = False"

fun sanitizeDataS ::
      "nat \<Rightarrow> SanitizationParams \<Rightarrow> hval \<Rightarrow> store \<Rightarrow> (js_exn + hval) \<times> store"
  and mapItems ::
      "nat \<Rightarrow> SanitizationParams \<Rightarrow> hval list \<Rightarrow> address \<Rightarrow> store \<Rightarrow> (js_exn + hval) \<times> store"
  and forEachKey ::
      "nat \<Rightarrow> SanitizationParams \<Rightarrow> string list \<Rightarrow> address \<Rightarrow> store \<Rightarrow> (js_exn + hval) \<times> store"
  where
  "sanitizeDataS 0 config data h = (Inl (RangeError ''Maximum call stack size exceeded''), h)"
| "sanitizeDataS (Suc depth) config data h =
     (case data of
        HStr s \<Rightarrow>
          (case maxStringLength config of
             None \<Rightarrow> (Inr data, h)
           | Some n \<Rightarrow> if n \<noteq> 0 then (Inr (HStr (truncateString s n)), h) else (Inr data, h))
      | HRef a \<Rightarrow>
          (case lookupObject h a of
             None \<Rightarrow> (Inl (TypeError ''no object at this address''), h)
           | Some (HArray items) \<Rightarrow>
               (case allocate (HArray []) h of
                  (h1, result) \<Rightarrow> mapItems depth config items result h1)
           | Some (HObject props) \<Rightarrow>
               (case allocate (HObject props) h of
                  (h1, sanitizedObject) \<Rightarrow>
                    (let kept = filter (\<lambda>(key, v). \<not> isSkipped config key) props;
                         h2 = h1[sanitizedObject := HObject kept]
                     in forEachKey depth config (map fst kept) sanitizedObject h2)))
      | _ \<Rightarrow> (Inr data, h))"
| "mapItems depth config [] result h = (Inr (HRef result), h)"
| "mapItems depth config (item # items) result h =
     (case (if isReference item then sanitizeDataS depth config item h else (Inr item, h)) of
        (Inl ex, h') \<Rightarrow> (Inl ex, h')
      | (Inr v, h') \<Rightarrow> mapItems depth config items result (pushItem result v h'))"
| "forEachKey depth config [] sanitizedObject h = (Inr (HRef sanitizedObject), h)"
| "forEachKey depth config (key # keys) sanitizedObject h =
     (if isSensitive config key
      then forEachKey depth config keys sanitizedObject
             (setProperty sanitizedObject key (HStr (maskValue config)) h)
      else (case readProperty h sanitizedObject key of
              HStr s \<Rightarrow>
                forEachKey depth config keys sanitizedObject
                  (setProperty sanitizedObject key (HStr (processString config s)) h)
            | HRef a \<Rightarrow>
                (case sanitizeDataS depth config (HRef a) h of
                   (Inl ex, h') \<Rightarrow> (Inl ex, h')
                 | (Inr v, h') \<Rightarrow>
                     forEachKey depth config keys sanitizedObject
                       (setProperty sanitizedObject key v h'))
            | _ \<Rightarrow> forEachKey depth config keys sanitizedObject h))"

text \<open>
  Well-formed stores, and the objects that hold no address from before a call. The last
  predicate is the invariant of the \<^verbatim>\<open>forEach\<close> loop: a property that still holds
  an address below \<open>r\<close> is under a key that the loop has yet to visit.
\<close>

definition valuesOf :: "hobj \<Rightarrow> hval list" where
  "valuesOf obj = (case obj of HArray items \<Rightarrow> items | HObject props \<Rightarrow> map snd props)"

definition wellFormedObject :: "hobj \<Rightarrow> bool" where
  \<comment> \<open>An object has each of its keys once.\<close>
  "wellFormedObject obj =
     (case obj of HArray items \<Rightarrow> True | HObject props \<Rightarrow> distinct (map fst props))"

definition wellFormed :: "store \<Rightarrow> bool" where
  "wellFormed h = list_all wellFormedObject h"

definition refersFrom :: "address \<Rightarrow> hobj \<Rightarrow> bool" where
  \<comment> \<open>The object holds no address below \<open>n\<close>.\<close>
  "refersFrom n obj =
     list_all (\<lambda>v. case v of HRef b \<Rightarrow> n \<le> b | _ \<Rightarrow> True) (valuesOf obj)"

definition closedFrom :: "address \<Rightarrow> store \<Rightarrow> bool" where
  \<comment> \<open>No object at an address from \<open>n\<close> on holds an address below \<open>n\<close>.\<close>
  "closedFrom n h = list_all (refersFrom n) (drop n h)"

definition pending :: "address \<Rightarrow> (string \<times> hval) list \<Rightarrow> string list \<Rightarrow> bool" where
  "pending r props keys = (\<forall>k b. (k, HRef b) \<in> set props \<and> b < r \<longrightarrow> k \<in> set keys)"

section \<open>ErrorProcessor: the message cleaner\<close>

definition ESC :: char where
  \<comment> \<open>\<^verbatim>\<open>String.fromCharCode(27)\<close>\<close>
  "ESC = char_of (27 :: nat)"

definition LF :: char where
  "LF = char_of (10 :: nat)"

definition isDigit :: "char \<Rightarrow> bool" where
  \<comment> \<open>\<^verbatim>\<open>\d\<close> and \<^verbatim>\<open>[0-9]\<close>\<close>
  "isDigit c = (c \<in> set ''0123456789'')"

definition isLetter :: "char \<Rightarrow> bool" where
  \<comment> \<open>\<^verbatim>\<open>[A-Za-z]\<close>\<close>
  "isLetter c = (c \<in> set ''ABCDEFGHIJKLMNOPQRSTUVWXYZabcdefghijklmnopqrstuvwxyz'')"

text \<open>
  The pattern of \<^verbatim>\<open>cleanMessage\<close> is
  \<^verbatim>\<open>ESC\[\d+(?:;\d+)*m|ESC\??[0-9;]*[A-Za-z]\<close>, replaced globally. Both alternatives
  start with ESC; the matchers below take the text after it and return what follows the
  match. Each repetition is greedy and is followed by a character outside its own class,
  so backtracking finds no other match than the greedy one.
\<close>

function colorParams :: "string \<Rightarrow> string" where
  \<comment> \<open>\<^verbatim>\<open>(?:;\d+)*\<close>\<close>
  "colorParams [] = []"
| "colorParams (c # cs) =
     (if c = CHR '';'' \<and> takeWhile isDigit cs \<noteq> []
      then colorParams (dropWhile isDigit cs) else c # cs)"
  by pat_completeness auto
termination
  by (relation "measure length") (auto simp: less_Suc_eq_le length_dropWhile_le)

definition matchColor :: "string \<Rightarrow> string option" where
  \<comment> \<open>\<^verbatim>\<open>\[\d+(?:;\d+)*m\<close>\<close>
  "matchColor cs =
     (case cs of
        [] \<Rightarrow> None
      | b # r \<Rightarrow>
          if b = CHR ''['' \<and> takeWhile isDigit r \<noteq> []
          then (case colorParams (dropWhile isDigit r) of
                  [] \<Rightarrow> None
                | m # rest \<Rightarrow> if m = CHR ''m'' then Some rest else None)
          else None)"

definition matchControl :: "string \<Rightarrow> string option" where
  \<comment> \<open>\<^verbatim>\<open>\??[0-9;]*[A-Za-z]\<close>\<close>
  "matchControl cs =
     (case dropWhile (\<lambda>c. isDigit c \<or> c = CHR '';'')
             (case cs of [] \<Rightarrow> [] | q # r \<Rightarrow> if q = CHR ''?'' then r else q # r) of
        [] \<Rightarrow> None
      | l # rest \<Rightarrow> if isLetter l then Some rest else None)"

definition matchAnsi :: "string \<Rightarrow> string option" where
  "matchAnsi cs = (case matchColor cs of Some rest \<Rightarrow> Some rest | None \<Rightarrow> matchControl cs)"

lemma colorParams_length: "length (colorParams cs) \<le> length cs"
proof (induction cs rule: colorParams.induct)
  case 1
  then show ?case by simp
next
  case (2 c cs)
  show ?case
  proof (cases "c = CHR '';'' \<and> takeWhile isDigit cs \<noteq> []")
    case True
    with 2 have "length (colorParams (dropWhile isDigit cs)) \<le> length (dropWhile isDigit cs)"
      by simp
    also have "\<dots> \<le> length cs" by (rule length_dropWhile_le)
    finally show ?thesis using True by simp
  next
    case False
    then show ?thesis by auto
  qed
qed

lemma matchColor_length: "matchColor cs = Some rest \<Longrightarrow> length rest < length cs"
proof -
  assume a: "matchColor cs = Some rest"
  then obtain r where cs: "cs = CHR ''['' # r"
    and cp: "colorParams (dropWhile isDigit r) = CHR ''m'' # rest"
    by (auto simp: matchColor_def split: list.splits if_splits)
  have "length (colorParams (dropWhile isDigit r)) \<le> length (dropWhile isDigit r)"
    by (rule colorParams_length)
  also have "\<dots> \<le> length r" by (rule length_dropWhile_le)
  finally show ?thesis using cs cp by simp
qed

lemma matchControl_length: "matchControl cs = Some rest \<Longrightarrow> length rest < length cs"
proof -
  assume a: "matchControl cs = Some rest"
  let ?r = "(case cs of [] \<Rightarrow> [] | q # r \<Rightarrow> if q = CHR ''?'' then r else q # r)"
  from a obtain l where d: "dropWhile (\<lambda>c. isDigit c \<or> c = CHR '';'') ?r = l # rest"
    by (auto simp: matchControl_def split: list.splits if_splits)
  have "length (dropWhile (\<lambda>c. isDigit c \<or> c = CHR '';'') ?r) \<le> length ?r"
    by (rule length_dropWhile_le)
  moreover have "length ?r \<le> length cs" by (auto split: list.splits)
  ultimately show ?thesis using d by simp
qed

lemma matchAnsi_length: "matchAnsi cs = Some rest \<Longrightarrow> length rest < length cs"
  by (auto simp: matchAnsi_def split: option.splits dest: matchColor_length matchControl_length)

function stripAnsi :: "string \<Rightarrow> string" where
  \<comment> \<open>The global replace: one pass from the left, resuming after each match.\<close>
  "stripAnsi [] = []"
| "stripAnsi (c # cs) =
     (if c = ESC
      then (case matchAnsi cs of
              Some rest \<Rightarrow> stripAnsi rest
            | None \<Rightarrow> c # stripAnsi cs)
      else c # stripAnsi cs)"
  by pat_completeness auto
termination
  by (relation "measure length") (auto dest: matchAnsi_length)

definition stripErrorPrefix :: "string \<Rightarrow> string" where
  \<comment> \<open>\<^verbatim>\<open>cleaned.replace(/^'Error: |^'|'$/g, "")\<close>: one match at the start, then
      one at the end of what is left.\<close>
  "stripErrorPrefix s =
     (let s1 = (if startsWith s (CHR 0x27 # ''Error: '') then drop 8 s
                else if startsWith s [CHR 0x27] then drop 1 s
                else s)
      in if s1 \<noteq> [] \<and> last s1 = CHR 0x27 then butlast s1 else s1)"

definition cleanMessage :: "string \<Rightarrow> string" where
  "cleanMessage message =
     (if message = [] then []
      else takeWhile (\<lambda>c. c \<noteq> LF)
             (stripErrorPrefix (stripAnsi (sanitizeString message))))"

section \<open>ErrorCategory\<close>

text \<open>
  Modelled from the spec: the enumeration \<^verbatim>\<open>models/enums/errorCategory\<close> is not among
  the sources. Its members are the names that \<^verbatim>\<open>ErrorProcessor\<close> uses (the spec's
  section 4.3 lists them, but for \<^verbatim>\<open>PERMISSION\<close>). It is taken to be a string
  enumeration whose values are no array indices, so that \<^verbatim>\<open>Object.entries\<close> walks
  the pattern table in the order written; the value of a member is taken to be its name.
\<close>

datatype ErrorCategory =
    NETWORK | HTTP_CLIENT | HTTP_SERVER | AUTHENTICATION | AUTHORIZATION | NOT_FOUND
  | CONNECTION | QUERY | TRANSACTION | CONSTRAINT | DATABASE
  | PERMISSION | CONFLICT
  | CONFIGURATION | NOT_IMPLEMENTED | SERVICE | TIMEOUT
  | UI | ELEMENT | NAVIGATION | SELECTOR | ASSERTION
  | VALIDATION | IO | PARSING | SERIALIZATION
  | SETUP | TEARDOWN | TEST | FIXTURE
  | PERFORMANCE | MEMORY | RESOURCE_LIMIT
  | ENVIRONMENT | DEPENDENCY
  | FILE_NOT_FOUND | PATH_IS_DIRECTORY | NOT_A_DIRECTORY | DIRECTORY_NOT_EMPTY
  | FILE_EXISTS | ACCESS_DENIED | FILE_BUSY | FILE_TOO_LARGE | FILE_NAME_TOO_LONG
  | NO_SPACE | READ_ONLY_FILE_SYSTEM
  | UNKNOWN

definition categoryTable :: "(string \<times> ErrorCategory) list" where
  "categoryTable =
     [(''NETWORK'', NETWORK), (''HTTP_CLIENT'', HTTP_CLIENT), (''HTTP_SERVER'', HTTP_SERVER),
      (''AUTHENTICATION'', AUTHENTICATION), (''AUTHORIZATION'', AUTHORIZATION),
      (''NOT_FOUND'', NOT_FOUND), (''CONNECTION'', CONNECTION), (''QUERY'', QUERY),
      (''TRANSACTION'', TRANSACTION), (''CONSTRAINT'', CONSTRAINT), (''DATABASE'', DATABASE),
      (''PERMISSION'', PERMISSION), (''CONFLICT'', CONFLICT),
      (''CONFIGURATION'', CONFIGURATION), (''NOT_IMPLEMENTED'', NOT_IMPLEMENTED),
      (''SERVICE'', SERVICE), (''TIMEOUT'', TIMEOUT), (''UI'', UI), (''ELEMENT'', ELEMENT),
      (''NAVIGATION'', NAVIGATION), (''SELECTOR'', SELECTOR), (''ASSERTION'', ASSERTION),
      (''VALIDATION'', VALIDATION), (''IO'', IO), (''PARSING'', PARSING),
      (''SERIALIZATION'', SERIALIZATION), (''SETUP'', SETUP), (''TEARDOWN'', TEARDOWN),
      (''TEST'', TEST), (''FIXTURE'', FIXTURE), (''PERFORMANCE'', PERFORMANCE),
      (''MEMORY'', MEMORY), (''RESOURCE_LIMIT'', RESOURCE_LIMIT),
      (''ENVIRONMENT'', ENVIRONMENT), (''DEPENDENCY'', DEPENDENCY),
      (''FILE_NOT_FOUND'', FILE_NOT_FOUND), (''PATH_IS_DIRECTORY'', PATH_IS_DIRECTORY),
      (''NOT_A_DIRECTORY'', NOT_A_DIRECTORY), (''DIRECTORY_NOT_EMPTY'', DIRECTORY_NOT_EMPTY),
      (''FILE_EXISTS'', FILE_EXISTS), (''ACCESS_DENIED'', ACCESS_DENIED),
      (''FILE_BUSY'', FILE_BUSY), (''FILE_TOO_LARGE'', FILE_TOO_LARGE),
      (''FILE_NAME_TOO_LONG'', FILE_NAME_TOO_LONG), (''NO_SPACE'', NO_SPACE),
      (''READ_ONLY_FILE_SYSTEM'', READ_ONLY_FILE_SYSTEM), (''UNKNOWN'', UNKNOWN)]"

definition categoryOfKey :: "string \<Rightarrow> ErrorCategory option" where
  \<comment> \<open>\<^verbatim>\<open>key in ErrorCategory\<close>, and the member of that name.\<close>
  "categoryOfKey key = map_of categoryTable key"

definition categoryValue :: "ErrorCategory \<Rightarrow> string" where
  \<comment> \<open>The string that a member is at run time.\<close>
  "categoryValue c = (case find (\<lambda>(name, member). member = c) categoryTable of
                        Some (name, member) \<Rightarrow> name
                      | None \<Rightarrow> ''UNKNOWN'')"

section \<open>Errors as the handler sees them\<close>

text \<open>
  \<^verbatim>\<open>captureError\<close> takes an \<^verbatim>\<open>unknown\<close>. An object is modelled by what the
  handler reads of it: whether it is an instance of \<^verbatim>\<open>Error\<close> or of
  \<^verbatim>\<open>AppError\<close>, whether \<^verbatim>\<open>axios.isAxiosError\<close> holds of it, what
  \<^verbatim>\<open>error.message\<close> reads (the empty string of the prototype for an
  \<^verbatim>\<open>Error\<close> without a message of its own, \<^verbatim>\<open>undefined\<close> for another object
  without one), its \<^verbatim>\<open>code\<close> and \<^verbatim>\<open>category\<close>, the HTTP client's
  \<^verbatim>\<open>response\<close> and \<^verbatim>\<open>config\<close> at the types axios declares, the assertion
  library's \<^verbatim>\<open>matcherResult\<close>, and its own enumerable properties as the object
  spread copies them, and what \<^verbatim>\<open>String(error)\<close> does: the method
  \<^verbatim>\<open>toString\<close> that the conversion calls may be the object's own, and may throw.
  An object with an accessor or a \<^verbatim>\<open>toJSON\<close> of its own is outside the model.
\<close>

text \<open>
  What a \<^verbatim>\<open>catch\<close> clause may bind: an error of the run-time system, or an
  instance of \<^verbatim>\<open>Error\<close> that the program made and threw, given by what its
  \<^verbatim>\<open>message\<close> property holds then (the property is writable, and holds any
  value).
\<close>

datatype thrown = Raised js_exn | ThrownError jsval

record http_response =
  status :: "int option"
  statusText :: "string option"
  responseData :: jsval

record http_config =
  configUrl :: "string option"
  configMethod :: "string option"
  configHeaders :: jsval

record matcher_result =
  matcherName :: jsval
  matcherPass :: jsval
  matcherExpected :: jsval
  matcherActual :: jsval
  matcherMessage :: "string option"
  matcherLog :: "string list option"

record js_error =
  instanceOfError :: bool
  instanceOfAppError :: bool
  isAxiosError :: bool
  messageProp :: jsval
  codeProp :: "jsval option"
  categoryProp :: string
  response :: "http_response option"
  config :: "http_config option"
  matcherResult :: "matcher_result option option"
  enumerableProps :: "(string \<times> jsval) list"
  stringConversion :: "thrown + string"

text \<open>
  \<open>codeProp\<close> is \<open>None\<close> when \<^verbatim>\<open>"code" in error\<close> is false; \<open>matcherResult\<close> is
  \<open>None\<close> when \<^verbatim>\<open>"matcherResult" in error\<close> is false and \<open>Some None\<close> when the
  property is there with a falsy value; \<open>categoryProp\<close> is read of an \<^verbatim>\<open>AppError\<close>
  only. \<open>stringConversion\<close> is what \<^verbatim>\<open>String(error)\<close> returns, or what it throws:
  \<^verbatim>\<open>[object Object]\<close> for an object that has the \<^verbatim>\<open>toString\<close> of
  \<^verbatim>\<open>Object.prototype\<close>. The handler converts no instance of \<^verbatim>\<open>Error\<close>
  to a string, and the field is left empty for one.
\<close>

datatype unknown =
    UUndefined
  | UNull
  | UBool bool
  | UNum int
  | UString string
  | UArray "jsval list"
  | UObject js_error

fun joinWith :: "string \<Rightarrow> string list \<Rightarrow> string" where
  "joinWith sep [] = []"
| "joinWith sep [x] = x"
| "joinWith sep (x # y # ys) = x @ sep @ joinWith sep (y # ys)"

fun js_toString :: "jsval \<Rightarrow> string" where
  \<comment> \<open>\<^verbatim>\<open>String(v)\<close> and the conversion of a template literal.\<close>
  "js_toString JUndefined = ''undefined''"
| "js_toString JNull = ''null''"
| "js_toString (JBool b) = (if b then ''true'' else ''false'')"
| "js_toString (JNum n) = showInt n"
| "js_toString (JStr s) = s"
| "js_toString (JArr items) =
     joinWith '','' (map (\<lambda>item. case item of JUndefined \<Rightarrow> [] | JNull \<Rightarrow> []
                                 | _ \<Rightarrow> js_toString item) items)"
| "js_toString (JObj props) = ''[object Object]''"

fun unknownToString :: "unknown \<Rightarrow> thrown + string" where
  \<comment> \<open>\<^verbatim>\<open>String(error)\<close>, read of a value that is no instance of \<^verbatim>\<open>Error\<close>.\<close>
  "unknownToString UUndefined = Inr ''undefined''"
| "unknownToString UNull = Inr ''null''"
| "unknownToString (UBool b) = Inr (if b then ''true'' else ''false'')"
| "unknownToString (UNum n) = Inr (showInt n)"
| "unknownToString (UString s) = Inr s"
| "unknownToString (UArray items) = Inr (js_toString (JArr items))"
| "unknownToString (UObject e) = stringConversion e"

definition optNum :: "int option \<Rightarrow> jsval" where
  "optNum n = (case n of None \<Rightarrow> JUndefined | Some i \<Rightarrow> JNum i)"

definition optStr :: "string option \<Rightarrow> jsval" where
  "optStr s = (case s of None \<Rightarrow> JUndefined | Some t \<Rightarrow> JStr t)"

definition responseStatus :: "js_error \<Rightarrow> int option" where
  \<comment> \<open>\<^verbatim>\<open>error.response?.status\<close>\<close>
  "responseStatus e = (case response e of None \<Rightarrow> None | Some r \<Rightarrow> status r)"

definition responseStatusText :: "js_error \<Rightarrow> string option" where
  \<comment> \<open>\<^verbatim>\<open>error.response?.statusText\<close>\<close>
  "responseStatusText e = (case response e of None \<Rightarrow> None | Some r \<Rightarrow> statusText r)"

definition requestUrl :: "js_error \<Rightarrow> string option" where
  \<comment> \<open>\<^verbatim>\<open>error.config?.url\<close>\<close>
  "requestUrl e = (case config e of None \<Rightarrow> None | Some c \<Rightarrow> configUrl c)"

definition requestMethod :: "js_error \<Rightarrow> string option" where
  \<comment> \<open>\<^verbatim>\<open>error.config?.method\<close>\<close>
  "requestMethod e = (case config e of None \<Rightarrow> None | Some c \<Rightarrow> configMethod c)"

definition truthyStatus :: "int option \<Rightarrow> bool" where
  "truthyStatus n = (case n of None \<Rightarrow> False | Some i \<Rightarrow> i \<noteq> 0)"

fun isAxios :: "unknown \<Rightarrow> bool" where
  \<comment> \<open>\<^verbatim>\<open>axios.isAxiosError(error)\<close>\<close>
  "isAxios (UObject e) = isAxiosError e"
| "isAxios _ = False"

fun isPlaywright :: "unknown \<Rightarrow> bool" where
  \<comment> \<open>\<^verbatim>\<open>error instanceof Error && "matcherResult" in error\<close>\<close>
  "isPlaywright (UObject e) = (instanceOfError e \<and> matcherResult e \<noteq> None)"
| "isPlaywright _ = False"

text \<open>
  What the handler takes from its surroundings: the platform's URL parser
  (\<^verbatim>\<open>new URL(u, "http://example.com").pathname\<close>, which throws on a text that is no
  URL), the two look-ups of \<^verbatim>\<open>RequestContext\<close> (not among the sources), and the
  current default policy of \<^verbatim>\<open>SanitizationConfig\<close>, a static that
  \<^verbatim>\<open>updateDefaultParams\<close> replaces.
\<close>

record environment =
  pathname :: "string \<Rightarrow> js_exn + string"
  isExpectedStatus :: "string \<Rightarrow> int \<Rightarrow> bool"
  isNegativeTest :: "string \<Rightarrow> bool"
  defaultParams :: SanitizationParams

section \<open>ErrorProcessor: message, context and category\<close>

definition orElse :: "string option \<Rightarrow> string \<Rightarrow> string" where
  \<comment> \<open>\<^verbatim>\<open>a || b\<close> for a string that may be undefined: the empty string is falsy.\<close>
  "orElse a b = (case a of None \<Rightarrow> b | Some s \<Rightarrow> if s = [] then b else s)"

definition messageToLowerCase :: "jsval \<Rightarrow> js_exn + string" where
  \<comment> \<open>\<^verbatim>\<open>error.message.toLowerCase()\<close> on whatever the property holds.\<close>
  "messageToLowerCase m =
     (case m of
        JStr s \<Rightarrow> Inr (toLowerCase s)
      | JUndefined \<Rightarrow>
          Inl (TypeError (''Cannot read properties of undefined (reading ''
                          @ [CHR 0x27] @ ''toLowerCase'' @ [CHR 0x27] @ '')''))
      | JNull \<Rightarrow>
          Inl (TypeError (''Cannot read properties of null (reading ''
                          @ [CHR 0x27] @ ''toLowerCase'' @ [CHR 0x27] @ '')''))
      | _ \<Rightarrow> Inl (TypeError ''error.message.toLowerCase is not a function''))"

definition cleanMessageOf :: "jsval \<Rightarrow> js_exn + string" where
  \<comment> \<open>\<^verbatim>\<open>cleanMessage(error.message)\<close> on whatever the property holds: a falsy
      value gives the empty string, another value that is no string has no
      \<^verbatim>\<open>replace\<close>.\<close>
  "cleanMessageOf m =
     (case m of
        JStr s \<Rightarrow> Inr (cleanMessage s)
      | _ \<Rightarrow> if truthy m then Inl (TypeError ''value.replace is not a function'')
             else Inr [])"

definition formatAxiosErrorMessage :: "environment \<Rightarrow> js_error \<Rightarrow> js_exn + string" where
  "formatAxiosErrorMessage env e =
     (case (case requestUrl e of
              None \<Rightarrow> Inr ''unknown''
            | Some u \<Rightarrow> if u = [] then Inr ''unknown'' else pathname env u) of
        Inl ex \<Rightarrow> Inl ex
      | Inr path \<Rightarrow>
          Inr (''HTTP ''
               @ (case responseStatus e of
                    None \<Rightarrow> ''Error''
                  | Some n \<Rightarrow> if n = 0 then ''Error'' else showInt n)
               @ '': '' @ orElse (responseStatusText e) (js_toString (messageProp e))
               @ '' ('' @ orElse (requestMethod e) ''GET'' @ '' '' @ path @ '')''))"

fun getErrorMessage :: "environment \<Rightarrow> unknown \<Rightarrow> js_exn + string" where
  "getErrorMessage env (UObject e) =
     (if instanceOfError e then cleanMessageOf (messageProp e)
      else if isAxiosError e then formatAxiosErrorMessage env e
      else (case messageProp e of
              JStr s \<Rightarrow> Inr (cleanMessage s)
            | _ \<Rightarrow> Inr ''Unknown error occurred''))"
| "getErrorMessage env (UString s) = Inr (cleanMessage s)"
| "getErrorMessage env _ = Inr ''Unknown error occurred''"

definition containsAnyKeyword :: "string \<Rightarrow> string list \<Rightarrow> bool" where
  "containsAnyKeyword txt keywords = list_ex (\<lambda>keyword. str_includes txt keyword) keywords"

fun getErrorMessageAsLowerCase :: "unknown \<Rightarrow> thrown + string" where
  "getErrorMessageAsLowerCase (UObject e) =
     (if instanceOfError e
      then map_sum Raised id (messageToLowerCase (messageProp e))
      else map_sum id toLowerCase (unknownToString (UObject e)))"
| "getErrorMessageAsLowerCase v = map_sum id toLowerCase (unknownToString v)"

definition getContextFromError :: "unknown \<Rightarrow> thrown + string" where
  "getContextFromError error =
     (if isAxios error then Inr ''API Request Error''
      else if isPlaywright error then Inr ''Playwright Test Error''
      else (case getErrorMessageAsLowerCase error of
              Inl ex \<Rightarrow> Inl ex
            | Inr errorMessage \<Rightarrow>
                if containsAnyKeyword errorMessage [''database'', ''query'', ''sql'']
                then Inr ''Database Error''
                else if containsAnyKeyword errorMessage
                          [''permission'', ''access'', ''unauthorized'']
                then Inr ''Permission Error''
                else Inr ''General Error''))"

definition categorizeAxiosError :: "js_error \<Rightarrow> ErrorCategory" where
  "categorizeAxiosError e =
     (case responseStatus e of
        None \<Rightarrow> NETWORK
      | Some statusCode \<Rightarrow>
          if statusCode = 0 then NETWORK
          else if statusCode = 401 then AUTHENTICATION
          else if statusCode = 403 then AUTHORIZATION
          else if statusCode = 404 then NOT_FOUND
          else if statusCode \<ge> 400 \<and> statusCode < 500 then HTTP_CLIENT
          else if statusCode \<ge> 500 then HTTP_SERVER
          else UNKNOWN)"

definition codeTable :: "(string \<times> ErrorCategory) list" where
  \<comment> \<open>The \<^verbatim>\<open>switch (error.code)\<close>.\<close>
  "codeTable =
     [(''ENOENT'', FILE_NOT_FOUND),
      (''EISDIR'', PATH_IS_DIRECTORY),
      (''ENOTDIR'', NOT_A_DIRECTORY),
      (''ENOTEMPTY'', DIRECTORY_NOT_EMPTY),
      (''EEXIST'', FILE_EXISTS),
      (''EACCES'', ACCESS_DENIED),
      (''EBUSY'', FILE_BUSY),
      (''EFBIG'', FILE_TOO_LARGE),
      (''ENAMETOOLONG'', FILE_NAME_TOO_LONG),
      (''ENOSPC'', NO_SPACE),
      (''EROFS'', READ_ONLY_FILE_SYSTEM)]"

definition patterns :: "(ErrorCategory \<times> string list) list" where
  "patterns =
     [(CONNECTION, [''connection'', ''connect'']),
      (QUERY, [''query'', ''sql'']),
      (TRANSACTION, [''transaction'']),
      (CONSTRAINT, [''constraint'', ''duplicate'']),
      (DATABASE, [''database'', ''db'']),
      (PERMISSION, [''permission'', ''access'', ''denied'']),
      (NOT_FOUND, [''not found'', ''missing'', ''doesn'' @ [CHR 0x27] @ ''t exist'']),
      (CONFLICT, [''conflict'']),
      (AUTHENTICATION, [''authentication'', ''login'']),
      (AUTHORIZATION, [''authorization'', ''forbidden'']),
      (CONFIGURATION, [''configuration'', ''config'']),
      (NOT_IMPLEMENTED, [''not_implemented'', ''unimplemented'']),
      (SERVICE, [''service'', ''unavailable'']),
      (NETWORK, [''network'']),
      (TIMEOUT, [''timeout'', ''gateway'', ''retry'']),
      (UI, [''ui'', ''interface'', ''view'', ''render'']),
      (ELEMENT, [''element'', ''component'', ''dom'']),
      (NAVIGATION, [''navigation'', ''route'', ''redirect'']),
      (SELECTOR, [''selector'', ''locator'', ''xpath'', ''css'']),
      (ASSERTION, [''assertion'', ''expect'', ''should'']),
      (VALIDATION, [''validation'', ''invalid'', ''schema'']),
      (IO, [''i/o'', ''input/output'']),
      (PARSING, [''parse'', ''parsing'']),
      (SERIALIZATION, [''serialize'', ''serialization'']),
      (SETUP, [''setup'', ''before'', ''beforeAll'']),
      (TEARDOWN, [''teardown'', ''after'', ''afterAll'']),
      (TEST, [''test failed'', ''test error'']),
      (FIXTURE, [''fixture'']),
      (PERFORMANCE, [''performance'', ''slow'', ''timeout'']),
      (MEMORY, [''memory'', ''out of memory'', ''heap'']),
      (RESOURCE_LIMIT, [''resource limit'', ''quota'']),
      (ENVIRONMENT, [''environment'', ''env'', ''variable'']),
      (DEPENDENCY, [''dependency'', ''module'', ''import'']),
      (FILE_NOT_FOUND, [''file not found'', ''no such file'',
                        ''doesn'' @ [CHR 0x27] @ ''t exist'']),
      (PATH_IS_DIRECTORY, [''is a directory'', ''cannot write to directory'',
                           ''cannot read directory as file'']),
      (NOT_A_DIRECTORY, [''not a directory'']),
      (DIRECTORY_NOT_EMPTY, [''directory not empty'']),
      (FILE_EXISTS, [''file already exists'', ''already exists'']),
      (ACCESS_DENIED, [''permission denied'', ''access denied'']),
      (NO_SPACE, [''no space'', ''disk full'']),
      (FILE_TOO_LARGE, [''file too large''])]"

definition categorizeErrorByMessage :: "js_error \<Rightarrow> js_exn + ErrorCategory" where
  "categorizeErrorByMessage e =
     (case messageToLowerCase (messageProp e) of
        Inl ex \<Rightarrow> Inl ex
      | Inr msg \<Rightarrow>
          (case (case codeProp e of
                   Some (JStr c) \<Rightarrow> map_of codeTable c
                 | _ \<Rightarrow> None) of
             Some category \<Rightarrow> Inr category
           | None \<Rightarrow>
               (case find (\<lambda>(categoryStr, keywords).
                             list_ex (\<lambda>keyword. str_includes msg keyword) keywords)
                       patterns of
                  Some (categoryStr, keywords) \<Rightarrow> Inr categoryStr
                | None \<Rightarrow>
                    if instanceOfAppError e
                    then (case categoryOfKey (categoryProp e) of
                            Some category \<Rightarrow> Inr category
                          | None \<Rightarrow> Inr UNKNOWN)
                    else Inr UNKNOWN)))"

fun categorizeError :: "unknown \<Rightarrow> js_exn + ErrorCategory" where
  "categorizeError (UObject e) =
     (if isAxiosError e then Inr (categorizeAxiosError e)
      else if instanceOfError e \<and> matcherResult e \<noteq> None then Inr TEST
      else if instanceOfError e then categorizeErrorByMessage e
      else Inr UNKNOWN)"
| "categorizeError _ = Inr UNKNOWN"

record ErrorDetails =
  source :: string
  errorContext :: string
  message :: string
  category :: ErrorCategory
  statusCode :: "int option"
  url :: "string option"

text \<open>
  \<^verbatim>\<open>statusCode\<close> and \<^verbatim>\<open>url\<close> are assigned together, by
  \<^verbatim>\<open>addHttpDetailsIfAvailable\<close>: the record has both keys or neither, and the
  \<^verbatim>\<open>url\<close> may then hold \<^verbatim>\<open>undefined\<close>.
\<close>

definition addHttpDetailsIfAvailable :: "unknown \<Rightarrow> ErrorDetails \<Rightarrow> ErrorDetails" where
  "addHttpDetailsIfAvailable error details =
     (case error of
        UObject e \<Rightarrow>
          if isAxiosError e \<and> truthyStatus (responseStatus e)
          then details\<lparr> statusCode := responseStatus e, url := requestUrl e \<rparr>
          else details
      | _ \<Rightarrow> details)"

definition createErrorDetails ::
  "environment \<Rightarrow> unknown \<Rightarrow> string \<Rightarrow> string option \<Rightarrow> thrown + ErrorDetails" where
  \<comment> \<open>The properties of the literal are evaluated in order, so the first that throws
      decides. The copy of the error's own properties back onto it, without
      \<^verbatim>\<open>stack\<close>, assigns each property its own value.\<close>
  "createErrorDetails env error src ctx =
     (case (case ctx of
              None \<Rightarrow> getContextFromError error
            | Some c \<Rightarrow> if c = [] then getContextFromError error else Inr c) of
        Inl ex \<Rightarrow> Inl ex
      | Inr c \<Rightarrow>
          (case getErrorMessage env error of
             Inl ex \<Rightarrow> Inl (Raised ex)
           | Inr m \<Rightarrow>
               (case categorizeError error of
                  Inl ex \<Rightarrow> Inl (Raised ex)
                | Inr cat \<Rightarrow>
                    Inr (addHttpDetailsIfAvailable error
                           \<lparr> source = src, errorContext = c, message = m, category = cat,
                             statusCode = None, url = None \<rparr>))))"

definition createCacheKey :: "ErrorDetails \<Rightarrow> string" where
  "createCacheKey details =
     source details @ ''_'' @ categoryValue (category details) @ ''_''
     @ take 50 (message details)"

section \<open>ErrorProcessor: extra details\<close>

definition sanitizeHeaders :: "environment \<Rightarrow> jsval \<Rightarrow> jsval" where
  \<comment> \<open>An empty object for what is falsy or no object; else \<^verbatim>\<open>sanitizeData\<close> under
      the default policy.\<close>
  "sanitizeHeaders env hs =
     (if \<not> truthy hs \<or> \<not> isObject hs then JObj []
      else sanitizeData (defaultParams env) hs)"

definition customSanitizationParams :: "environment \<Rightarrow> SanitizationParams" where
  "customSanitizationParams env =
     (defaultParams env)\<lparr> skipProperties := Some [''stack''],
                          truncateUrls := Some True,
                          maxStringLength := Some 1000 \<rparr>"

definition sanitizeObject :: "environment \<Rightarrow> jsval \<Rightarrow> jsval" where
  \<comment> \<open>Called on objects only, which are truthy.\<close>
  "sanitizeObject env obj = sanitizeData (customSanitizationParams env) obj"

definition extractPlaywrightDetails :: "js_error \<Rightarrow> jsval" where
  "extractPlaywrightDetails e =
     (case matcherResult e of
        Some (Some matcher) \<Rightarrow>
          JObj [(''name'', matcherName matcher),
                (''pass'', matcherPass matcher),
                (''expected'', matcherExpected matcher),
                (''actual'', matcherActual matcher),
                (''message'',
                   case matcherMessage matcher of
                     None \<Rightarrow> JUndefined
                   | Some m \<Rightarrow> if m = [] then JUndefined else JStr (cleanMessage m)),
                (''log'',
                   case matcherLog matcher of
                     None \<Rightarrow> JUndefined
                   | Some entries \<Rightarrow>
                       JArr (map (\<lambda>entry. JStr (cleanMessage entry))
                               (filter (\<lambda>entry. \<not> str_includes entry ''http'') entries)))]
      | _ \<Rightarrow> JObj [])"

definition extractAxiosDetails :: "environment \<Rightarrow> js_error \<Rightarrow> js_exn + jsval" where
  "extractAxiosDetails env e =
     (case (case config e of
              None \<Rightarrow> Inr []
            | Some c \<Rightarrow>
                (case (case configUrl c of
                         None \<Rightarrow> Inr JUndefined
                       | Some u \<Rightarrow> if u = [] then Inr JUndefined
                                   else map_sum id JStr (pathname env u)) of
                   Inl ex \<Rightarrow> Inl ex
                 | Inr path \<Rightarrow>
                     Inr [(''method'', optStr (configMethod c)),
                          (''url'', path),
                          (''headers'', sanitizeHeaders env (configHeaders c))])) of
        Inl ex \<Rightarrow> Inl ex
      | Inr requestPart \<Rightarrow>
          Inr (JObj ([(''status'', optNum (responseStatus e)),
                      (''statusText'', optStr (responseStatusText e))]
                     @ requestPart
                     @ (case response e of
                          None \<Rightarrow> []
                        | Some r \<Rightarrow>
                            if truthy (responseData r) \<and> isObject (responseData r)
                            then [(''data'', sanitizeObject env (responseData r))]
                            else []))))"

fun extractExtraDetails :: "environment \<Rightarrow> unknown \<Rightarrow> js_exn + jsval" where
  "extractExtraDetails env (UObject e) =
     (if instanceOfError e \<and> matcherResult e \<noteq> None then Inr (extractPlaywrightDetails e)
      else if isAxiosError e then extractAxiosDetails env e
      else Inr (sanitizeObject env (JObj (enumerableProps e))))"
| "extractExtraDetails env (UArray items) = Inr (sanitizeObject env (JArr items))"
| "extractExtraDetails env _ = Inr (JObj [])"

section \<open>ErrorHandler\<close>

text \<open>
  The state of the handler is its set of logged fingerprints, kept in insertion order as
  a JavaScript \<^verbatim>\<open>Set\<close> keeps it, and what the logger has received. The logger is
  the external sink: it takes a line and returns nothing. An error line is kept as the
  value that \<^verbatim>\<open>JSON.stringify(v, null, 2)\<close> renders.
\<close>

datatype log_entry = LogInfo string | LogError jsval

record handler_state =
  loggedErrors :: "string list"
  logLines :: "log_entry list"

definition MAX_CACHE_SIZE :: nat where
  "MAX_CACHE_SIZE = 1000"

definition loggerInfo :: "string \<Rightarrow> handler_state \<Rightarrow> handler_state" where
  \<comment> \<open>Modelled from the spec: the logger (\<^verbatim>\<open>logging/loggerManager\<close>) is not among
      the sources; the spec's section 6 gives it as a sink that takes a line and returns
      nothing.\<close>
  "loggerInfo line s = s\<lparr> logLines := logLines s @ [LogInfo line] \<rparr>"

definition loggerError :: "jsval \<Rightarrow> handler_state \<Rightarrow> handler_state" where
  \<comment> \<open>Modelled from the spec: the same sink, at error severity.\<close>
  "loggerError v s = s\<lparr> logLines := logLines s @ [LogError v] \<rparr>"

definition shouldSkipErrorLogging :: "environment \<Rightarrow> unknown \<Rightarrow> string option \<Rightarrow> bool" where
  "shouldSkipErrorLogging env error ctx =
     (case ctx of
        None \<Rightarrow> False
      | Some c \<Rightarrow>
          if c = [] then False
          else (case error of
                  UObject e \<Rightarrow>
                    (case responseStatus e of
                       None \<Rightarrow> False
                     | Some st \<Rightarrow>
                         if isAxiosError e \<and> st \<noteq> 0
                         then isExpectedStatus env c st \<and> isNegativeTest env c
                         else False)
                | _ \<Rightarrow> False))"

definition manageCacheSize :: "string \<Rightarrow> handler_state \<Rightarrow> handler_state" where
  \<comment> \<open>\<^verbatim>\<open>add\<close> leaves a set that has the key as it is; \<^verbatim>\<open>values().next().value\<close>
      is the oldest key.\<close>
  "manageCacheSize cacheKey s =
     (let added = (if cacheKey \<in> set (loggedErrors s) then loggedErrors s
                   else loggedErrors s @ [cacheKey])
      in if length added > MAX_CACHE_SIZE
         then (case added of
                 [] \<Rightarrow> s\<lparr> loggedErrors := added \<rparr>
               | firstItem # others \<Rightarrow> s\<lparr> loggedErrors := others \<rparr>)
         else s\<lparr> loggedErrors := added \<rparr>)"

definition detailsObject :: "ErrorDetails \<Rightarrow> jsval" where
  \<comment> \<open>The \<^verbatim>\<open>ErrorDetails\<close> object, as \<^verbatim>\<open>sanitizeObject\<close> receives it.\<close>
  "detailsObject details =
     JObj ([(''source'', JStr (source details)),
            (''context'', JStr (errorContext details)),
            (''message'', JStr (message details)),
            (''category'', JStr (categoryValue (category details)))]
           @ (case statusCode details of
                None \<Rightarrow> []
              | Some n \<Rightarrow> [(''statusCode'', JNum n), (''url'', optStr (url details))]))"

fun objectKeysLength :: "jsval \<Rightarrow> nat" where
  \<comment> \<open>\<^verbatim>\<open>Object.keys(v).length\<close>\<close>
  "objectKeysLength (JObj props) = length props"
| "objectKeysLength (JArr items) = length items"
| "objectKeysLength _ = 0"

fun getProperty :: "jsval \<Rightarrow> string \<Rightarrow> jsval" where
  \<comment> \<open>The read \<^verbatim>\<open>v?.key\<close> of a named property.\<close>
  "getProperty (JObj props) key = (case map_of props key of None \<Rightarrow> JUndefined | Some v \<Rightarrow> v)"
| "getProperty _ key = JUndefined"

definition extraDetailsRecord :: "string \<Rightarrow> jsval \<Rightarrow> jsval" where
  "extraDetailsRecord src extraDetails =
     JObj [(''source'', JStr src),
           (''type'', if truthy (getProperty extraDetails ''statusText'')
                      then getProperty extraDetails ''statusText'' else JStr ''Unknown''),
           (''details'', extraDetails)]"

definition thrownError :: "thrown \<Rightarrow> unknown" where
  \<comment> \<open>The value that the \<^verbatim>\<open>catch\<close> clause binds: an instance of
      \<^verbatim>\<open>Error\<close>, with the text of the run-time system as its message, or with what
      the program has put there.\<close>
  "thrownError t =
     UObject \<lparr> instanceOfError = True, instanceOfAppError = False, isAxiosError = False,
               messageProp = (case t of Raised ex \<Rightarrow> JStr (exnMessage ex) | ThrownError m \<Rightarrow> m),
               codeProp = None, categoryProp = [],
               response = None, config = None, matcherResult = None,
               enumerableProps = [], stringConversion = Inr [] \<rparr>"

definition fallbackRecord :: "string \<Rightarrow> string \<Rightarrow> jsval" where
  "fallbackRecord src msg =
     JObj [(''source'', JStr src),
           (''context'', JStr ''Error Handler Failure''),
           (''message'', JStr msg),
           (''category'', JStr (categoryValue UNKNOWN))]"

definition tryBlock ::
  "environment \<Rightarrow> unknown \<Rightarrow> string \<Rightarrow> string option \<Rightarrow> handler_state
     \<Rightarrow> handler_state \<times> thrown option" where
  \<comment> \<open>The \<^verbatim>\<open>try\<close> block of \<^verbatim>\<open>captureError\<close>: the state where it ends, and what
      it threw if it did.\<close>
  "tryBlock env error src ctx s =
     (if shouldSkipErrorLogging env error ctx
      then (case error of
              UObject e \<Rightarrow>
                (case responseStatus e of
                   None \<Rightarrow> (s, None)
                 | Some st \<Rightarrow>
                     if isAxiosError e \<and> st \<noteq> 0
                     then (loggerInfo (''Expected error in negative test [''
                                       @ (case ctx of None \<Rightarrow> ''undefined'' | Some c \<Rightarrow> c)
                                       @ '']: Status '' @ showInt st) s, None)
                     else (s, None))
            | _ \<Rightarrow> (s, None))
      else (case createErrorDetails env error src ctx of
              Inl ex \<Rightarrow> (s, Some ex)
            | Inr details \<Rightarrow>
                (let cacheKey = createCacheKey details in
                 if cacheKey \<in> set (loggedErrors s) then (s, None)
                 else (let s1 = manageCacheSize cacheKey s;
                           sanitizedDetails = sanitizeObject env (detailsObject details);
                           s2 = loggerError sanitizedDetails s1
                       in case extractExtraDetails env error of
                            Inl ex \<Rightarrow> (s2, Some (Raised ex))
                          | Inr extraDetails \<Rightarrow>
                              if objectKeysLength extraDetails > 0
                              then (loggerError (extraDetailsRecord src extraDetails) s2, None)
                              else (s2, None)))))"

definition captureError ::
  "environment \<Rightarrow> unknown \<Rightarrow> string \<Rightarrow> string option \<Rightarrow> handler_state
     \<Rightarrow> thrown + handler_state" where
  \<comment> \<open>\<open>Inl\<close> is an exception that leaves \<^verbatim>\<open>captureError\<close>: the call of
      \<^verbatim>\<open>getErrorMessage\<close> in the \<^verbatim>\<open>catch\<close> clause is inside no
      \<^verbatim>\<open>try\<close>.\<close>
  "captureError env error src ctx s =
     (case tryBlock env error src ctx s of
        (s', None) \<Rightarrow> Inr s'
      | (s', Some loggingError) \<Rightarrow>
          (case getErrorMessage env (thrownError loggingError) of
             Inl ex \<Rightarrow> Inl (Raised ex)
           | Inr msg \<Rightarrow> Inr (loggerError (fallbackRecord src msg) s')))"

text \<open>
  A stand-in for the platform's URL parser on the URLs of the examples: an absolute
  \<^verbatim>\<open>http\<close> or \<^verbatim>\<open>https\<close> URL, or a path under the base. It is used to run the
  model on concrete inputs only; the theorems are about any parser.
\<close>

definition simplePathname :: "string \<Rightarrow> js_exn + string" where
  "simplePathname u =
     (let afterScheme =
            (if startsWith u ''https://'' then Some (drop 8 u)
             else if startsWith u ''http://'' then Some (drop 7 u)
             else None);
          stop = (\<lambda>c. c = CHR ''?'' \<or> c = CHR ''#'')
      in case afterScheme of
           Some r \<Rightarrow>
             (let host = takeWhile (\<lambda>c. c \<noteq> CHR ''/'' \<and> \<not> stop c) r;
                  p = takeWhile (\<lambda>c. \<not> stop c)
                        (dropWhile (\<lambda>c. c \<noteq> CHR ''/'' \<and> \<not> stop c) r)
              in if host = [] then Inl (TypeError ''Invalid URL'')
                 else if p = [] then Inr ''/'' else Inr p)
         | None \<Rightarrow>
             (let p = takeWhile (\<lambda>c. \<not> stop c) u
              in if startsWith p ''/'' then Inr p else Inr (CHR ''/'' # p)))"

definition exampleEnv :: environment where
  "exampleEnv =
     \<lparr> pathname = simplePathname,
       isExpectedStatus = (\<lambda>c st. c = ''negative login'' \<and> st = 401),
       isNegativeTest = (\<lambda>c. c = ''negative login''),
       defaultParams = defaultSanitizationParams \<rparr>"

definition plainError :: "string \<Rightarrow> js_error" where
  \<comment> \<open>\<^verbatim>\<open>new Error(m)\<close>\<close>
  "plainError m =
     \<lparr> instanceOfError = True, instanceOfAppError = False, isAxiosError = False,
       messageProp = JStr m, codeProp = None, categoryProp = [],
       response = None, config = None, matcherResult = None, enumerableProps = [],
       stringConversion = Inr [] \<rparr>"

definition httpError ::
  "int \<Rightarrow> string \<Rightarrow> string \<Rightarrow> string \<Rightarrow> js_error" where
  \<comment> \<open>An object of the HTTP client's error shape that is no instance of
      \<^verbatim>\<open>Error\<close>.\<close>
  "httpError st stText meth u =
     \<lparr> instanceOfError = False, instanceOfAppError = False, isAxiosError = True,
       messageProp = JUndefined, codeProp = None, categoryProp = [],
       response = Some \<lparr> status = Some st, statusText = Some stText,
                         responseData = JUndefined \<rparr>,
       config = Some \<lparr> configUrl = Some u, configMethod = Some meth,
                       configHeaders = JUndefined \<rparr>,
       matcherResult = None,
       enumerableProps = [],
       stringConversion = Inr ''[object Object]'' \<rparr>"

definition throwingObject :: "jsval \<Rightarrow> js_error" where
  \<comment> \<open>An instance of
      \<^verbatim>\<open>class { toString() { const e = new Error("x"); e.message = m; throw e } }\<close>:
      an object with no property of its own, whose conversion to a string throws an
      \<^verbatim>\<open>Error\<close> with \<open>m\<close> as its message.\<close>
  "throwingObject m =
     \<lparr> instanceOfError = False, instanceOfAppError = False, isAxiosError = False,
       messageProp = JUndefined, codeProp = None, categoryProp = [],
       response = None, config = None, matcherResult = None, enumerableProps = [],
       stringConversion = Inl (ThrownError m) \<rparr>"

definition emptyState :: handler_state where
  "emptyState = \<lparr> loggedErrors = [], logLines = [] \<rparr>"



chapter \<open>Properties\<close>

section \<open>Strings\<close>

lemma startsWith_prefix: "startsWith s t \<longleftrightarrow> prefix t s"
  by (induction s t rule: startsWith.induct) auto

lemma indexOf_None_iff: "indexOf s t = None \<longleftrightarrow> \<not> sublist t s"
proof (induction s)
  case Nil
  then show ?case by simp
next
  case (Cons c cs)
  then show ?case
    by (auto simp: startsWith_prefix sublist_Cons_right)
qed

lemma str_includes_sublist: "str_includes s t \<longleftrightarrow> sublist t s"
  by (simp add: str_includes_def indexOf_None_iff)

text \<open>A text that shares no character with \<open>ys\<close> occurs in \<open>xs @ ys\<close> only inside \<open>xs\<close>.\<close>

lemma sublist_append_disjoint:
  assumes "t \<noteq> []" and "set t \<inter> set ys = {}" and "sublist t (xs @ ys)"
  shows "sublist t xs"
proof -
  from assms(3) consider "sublist t xs" | "sublist t ys"
    | xs1 xs2 where "t = xs1 @ xs2" "suffix xs1 xs" "prefix xs2 ys"
    by (auto simp: sublist_append)
  then show ?thesis
  proof cases
    case 1
    then show ?thesis .
  next
    case 2
    then have "set t \<subseteq> set ys" by (rule set_mono_sublist)
    with assms(1,2) show ?thesis by (cases t) auto
  next
    case 3
    show ?thesis
    proof (cases xs2)
      case Nil
      with 3 show ?thesis by auto
    next
      case (Cons a as)
      with 3(3) obtain zs where "ys = a # zs" by (cases ys) auto
      with 3(1) Cons assms(2) show ?thesis by auto
    qed
  qed
qed

text \<open>\<^verbatim>\<open>indexOf\<close> finds the first occurrence: there is none before it.\<close>

lemma indexOf_first:
  "indexOf s t = Some i \<Longrightarrow> t \<noteq> [] \<Longrightarrow> \<not> sublist t (take i s)"
proof (induction s arbitrary: i)
  case Nil
  then show ?case by (simp split: if_splits)
next
  case (Cons c cs)
  show ?case
  proof (cases "startsWith (c # cs) t")
    case True
    with Cons.prems show ?thesis by simp
  next
    case False
    with Cons.prems obtain j where j: "indexOf cs t = Some j" "i = Suc j" by auto
    from Cons.IH[OF j(1) Cons.prems(2)] have ih: "\<not> sublist t (take j cs)" .
    have "\<not> prefix t (c # take j cs)"
    proof
      assume "prefix t (c # take j cs)"
      moreover have "prefix (c # take j cs) (c # cs)" by (simp add: take_is_prefix)
      ultimately have "prefix t (c # cs)" by (rule prefix_order.trans)
      with False show False by (simp add: startsWith_prefix)
    qed
    with ih j(2) show ?thesis by (simp add: sublist_Cons_right)
  qed
qed

section \<open>The sanitizer\<close>

lemma no_http_dots:
  "\<not> str_includes xs ''http'' \<Longrightarrow> \<not> str_includes (take n xs @ ''...'') ''http''"
proof
  assume a: "\<not> str_includes xs ''http''" and b: "str_includes (take n xs @ ''...'') ''http''"
  from b have "sublist ''http'' (take n xs @ ''...'')" by (simp add: str_includes_sublist)
  then have "sublist ''http'' (take n xs)"
    by (rule sublist_append_disjoint[rotated 2]) auto
  moreover have "sublist (take n xs) xs" by (simp add: take_is_prefix)
  ultimately have "sublist ''http'' xs" by (rule sublist_order.order.trans)
  with a show False by (simp add: str_includes_sublist)
qed

lemma sanitizeUrl_no_http: "\<not> str_includes (sanitizeUrl v) ''http''"
proof (cases "indexOf v ''http''")
  case None
  then show ?thesis by (simp add: sanitizeUrl_def str_includes_def)
next
  case (Some i)
  have "\<not> sublist ''http'' (take i v)" using indexOf_first[OF Some] by simp
  then have "\<not> sublist ''http'' (take i v @ ''...'')"
    using sublist_append_disjoint[of "''http''" "''...''" "take i v"] by auto
  with Some show ?thesis by (simp add: sanitizeUrl_def str_includes_def indexOf_None_iff)
qed

lemma truncateString_idem: "truncateString (truncateString v n) n = truncateString v n"
  by (auto simp: truncateString_def substring0_def min_def)

lemma truncateString_no_http:
  "\<not> str_includes v ''http'' \<Longrightarrow> \<not> str_includes (truncateString v n) ''http''"
  by (simp add: truncateString_def substring0_def no_http_dots)

lemma processString_idem: "processString c (processString c v) = processString c v"
proof (cases "truncateUrls c = Some True \<and> str_includes v ''http''")
  case True
  then show ?thesis
    by (auto simp: processString_def Let_def truncateString_idem sanitizeUrl_no_http
        truncateString_no_http split: option.splits)
next
  case False
  then show ?thesis
    by (auto simp: processString_def Let_def truncateString_idem
        truncateString_no_http split: option.splits)
qed

lemma isObject_sanitizeData: "isObject (sanitizeData c v) = isObject v"
  by (cases v) (auto split: option.splits)

text \<open>
  Claim C5. Sanitizing a sanitized value again, under the same policy, changes nothing:
  for every value and every policy, also one that sets \<^verbatim>\<open>maxStringLength\<close> or
  \<^verbatim>\<open>truncateUrls\<close>. A truncated string keeps its first \<open>n\<close> characters and gains
  three dots, so the second pass cuts it at the same place; a string cut at its first
  \<^verbatim>\<open>http\<close> no longer contains \<^verbatim>\<open>http\<close>.
\<close>

theorem sanitizeData_idempotent:
  "sanitizeData c (sanitizeData c v) = sanitizeData c v"
proof (induction c v rule: sanitizeData.induct)
  case (1 config s)
  then show ?case by (simp add: truncateString_idem split: option.splits)
next
  case (2 config items)
  then show ?case by (simp add: isObject_sanitizeData)
next
  case (3 config props)
  let ?F = "\<lambda>(key, v).
              if isSensitive config key then (key, JStr (maskValue config))
              else (case v of
                      JStr s \<Rightarrow> (key, JStr (processString config s))
                    | _ \<Rightarrow> if isObject v then (key, sanitizeData config v) else (key, v))"
  let ?NS = "\<lambda>(key, v). \<not> isSkipped config key"
  have filt: "filter ?NS (map ?F (filter ?NS props)) = map ?F (filter ?NS props)"
    by (induction props) (auto split: prod.splits jsval.splits)
  have idem: "?F (?F x) = ?F x" if "x \<in> set (filter ?NS props)" for x
  proof (cases x)
    case (Pair k v)
    show ?thesis
    proof (cases "isSensitive config k")
      case True
      with Pair show ?thesis by simp
    next
      case False
      show ?thesis
      proof (cases "isObject v")
        case True
        with 3[OF that Pair[symmetric] False]
        have "sanitizeData config (sanitizeData config v) = sanitizeData config v"
          by (cases v) auto
        with True False Pair show ?thesis
          by (cases v; cases "sanitizeData config v") (auto simp: isObject_sanitizeData)
      next
        case nobj: False
        with False Pair show ?thesis by (cases v) (auto simp: processString_idem)
      qed
    qed
  qed
  have "map ?F (map ?F (filter ?NS props)) = map ?F (filter ?NS props)"
    using idem by (simp add: map_idI)
  with filt show ?case by simp
qed simp_all

lemma allFields_primitive: "\<not> isObject v \<Longrightarrow> allFields v = []"
  by (cases v) auto

lemma field_case_object:
  "isObject v \<Longrightarrow> (case v of JStr s \<Rightarrow> A s | _ \<Rightarrow> if isObject v then B else C) = B"
  by (cases v) auto

lemma field_case_other:
  "\<not> isObject v \<Longrightarrow> (case v of JStr s \<Rightarrow> A s | _ \<Rightarrow> if isObject v then B else C)
     = (case v of JStr s \<Rightarrow> A s | _ \<Rightarrow> C)"
  by (cases v) auto

lemma allFields_sanitizeData:
  "(k, v) \<in> set (allFields (sanitizeData c x)) \<Longrightarrow> isSensitive c k \<Longrightarrow> v = JStr (maskValue c)"
proof (induction c x arbitrary: k v rule: sanitizeData.induct)
  case (1 config s)
  then show ?case by (simp split: option.splits if_splits)
next
  case (2 config items)
  from "2.prems"(1) obtain item where item: "item \<in> set items"
    and kv: "(k, v) \<in> set (allFields (if isObject item then sanitizeData config item else item))"
    by auto
  show ?case
  proof (cases "isObject item")
    case True
    with kv show ?thesis using "2.IH"[OF item True _ "2.prems"(2)] by simp
  next
    case False
    with kv show ?thesis by (simp add: allFields_primitive)
  qed
next
  case (3 config props)
  from "3.prems"(1) obtain key0 v0 where
      in_props: "(key0, v0) \<in> set (filter (\<lambda>(key, v). \<not> isSkipped config key) props)"
    and kv: "(k, v) \<in> set ((\<lambda>(key, v). (key, v) # allFields v)
        (if isSensitive config key0 then (key0, JStr (maskValue config))
         else (case v0 of
                 JStr s \<Rightarrow> (key0, JStr (processString config s))
               | _ \<Rightarrow> if isObject v0 then (key0, sanitizeData config v0) else (key0, v0))))"
    by auto
  show ?case
  proof (cases "isSensitive config key0")
    case True
    with kv show ?thesis by simp
  next
    case False
    show ?thesis
    proof (cases "isObject v0")
      case True
      with kv False "3.prems"(2) have "(k, v) \<in> set (allFields (sanitizeData config v0))"
        by (auto simp: field_case_object)
      moreover from True have "(\<exists>xs. v0 = JArr xs) \<or> (\<exists>ps. v0 = JObj ps)"
        by (cases v0) auto
      ultimately show ?thesis
        using "3.IH"[OF in_props refl False] "3.prems"(2) True by blast
    next
      case nobj: False
      with kv False "3.prems"(2) show ?thesis
        by (cases v0) (auto simp: allFields_primitive field_case_other)
    qed
  qed
qed simp_all

lemma lookupPath_primitive: "\<not> isObject v \<Longrightarrow> p \<noteq> [] \<Longrightarrow> lookupPath v p = None"
  by (cases v; cases p) auto

lemma map_of_sanitized:
  "map_of (map (\<lambda>(key, v). (key, f key v)) (filter (\<lambda>(key, v). \<not> P key) props)) k
     = (if P k then None else map_option (f k) (map_of props k))"
  by (induction props) auto

lemma lookup_field:
  "lookupPath (sanitizeData c (JObj props)) (Key k # p) =
     (if isSkipped c k then None
      else (case map_of props k of
              None \<Rightarrow> None
            | Some v \<Rightarrow>
                lookupPath
                  (if isSensitive c k then JStr (maskValue c)
                   else (case v of
                           JStr s \<Rightarrow> JStr (processString c s)
                         | _ \<Rightarrow> if isObject v then sanitizeData c v else v)) p))"
proof -
  define f where "f = (\<lambda>key v.
      if isSensitive c key then JStr (maskValue c)
      else (case v of
              JStr s \<Rightarrow> JStr (processString c s)
            | _ \<Rightarrow> if isObject v then sanitizeData c v else v))"
  have "sanitizeData c (JObj props) =
     JObj (map (\<lambda>(key, v). (key, f key v)) (filter (\<lambda>(key, v). \<not> isSkipped c key) props))"
    by (auto simp: f_def split: jsval.splits)
  then have "lookupPath (sanitizeData c (JObj props)) (Key k # p) =
     (if isSkipped c k then None
      else (case map_of props k of None \<Rightarrow> None | Some v \<Rightarrow> lookupPath (f k v) p))"
    by (simp only: lookupPath.simps map_of_sanitized) (auto split: option.splits)
  then show ?thesis by (simp only: f_def)
qed

lemma lookup_item:
  "lookupPath (sanitizeData c (JArr items)) (Index i # p) =
     (if i < length items
      then lookupPath (if isObject (items ! i) then sanitizeData c (items ! i) else items ! i) p
      else None)"
  by simp

lemma lookupPath_sanitizeData:
  "lookupPath x (p @ [Key k]) = Some w \<Longrightarrow> isSensitive c k \<Longrightarrow>
   lookupPath (sanitizeData c x) (p @ [Key k]) =
     (if pathKept c p \<and> \<not> isSkipped c k then Some (JStr (maskValue c)) else None)"
proof (induction p arbitrary: x)
  case Nil
  then obtain props where x: "x = JObj props" and m: "map_of props k = Some w"
    by (cases x) (auto split: option.splits)
  show ?case using Nil.prems(2) m unfolding x append_Nil lookup_field by simp
next
  case (Cons s p)
  show ?case
  proof (cases s)
    case (Key k')
    with Cons.prems(1) obtain props v where x: "x = JObj props"
      and m: "map_of props k' = Some v" and l: "lookupPath v (p @ [Key k]) = Some w"
      by (cases x) (auto split: option.splits)
    from l have obj: "isObject v" using lookupPath_primitive[of v "p @ [Key k]"] by auto
    show ?thesis
    proof (cases "isSensitive c k'")
      case True
      then show ?thesis unfolding x Key append_Cons lookup_field using m
        by (simp add: lookupPath_primitive)
    next
      case False
      with Cons.IH[OF l Cons.prems(2)] obj m show ?thesis
        unfolding x Key append_Cons lookup_field
        by (simp add: field_case_object)
    qed
  next
    case (Index i)
    with Cons.prems(1) obtain items where x: "x = JArr items"
      and i: "i < length items" and l: "lookupPath (items ! i) (p @ [Key k]) = Some w"
      by (cases x) (auto split: if_splits)
    from l have obj: "isObject (items ! i)"
      using lookupPath_primitive[of "items ! i" "p @ [Key k]"] by auto
    with Cons.IH[OF l Cons.prems(2)] i show ?thesis
      unfolding x Index append_Cons lookup_item by simp
  qed
qed

text \<open>Every field of a value whose objects have each key once is at the end of a path.\<close>

lemma allFields_lookupPath:
  "distinctKeys x \<Longrightarrow> (k, v) \<in> set (allFields x) \<Longrightarrow> \<exists>p. lookupPath x (p @ [Key k]) = Some v"
proof (induction x arbitrary: k v rule: allFields.induct)
  case (1 items)
  from "1.prems"(2) obtain item where item: "item \<in> set items"
    and kv: "(k, v) \<in> set (allFields item)" by auto
  from item obtain i where i: "i < length items" "items ! i = item"
    by (auto simp: in_set_conv_nth)
  from "1.prems"(1) item have "distinctKeys item" by simp
  from "1.IH"[OF item this kv] obtain p where "lookupPath item (p @ [Key k]) = Some v" ..
  with i have "lookupPath (JArr items) ((Index i # p) @ [Key k]) = Some v" by simp
  then show ?case by blast
next
  case (2 props)
  from "2.prems"(2) obtain key0 v0 where in_props: "(key0, v0) \<in> set props"
    and kv: "(k, v) = (key0, v0) \<or> (k, v) \<in> set (allFields v0)" by auto
  from "2.prems"(1) in_props have m: "map_of props key0 = Some v0" and d: "distinctKeys v0"
    by auto
  from kv show ?case
  proof
    assume "(k, v) = (key0, v0)"
    with m have "lookupPath (JObj props) ([] @ [Key k]) = Some v" by simp
    then show ?thesis by blast
  next
    assume "(k, v) \<in> set (allFields v0)"
    from "2.IH"[OF in_props refl d this] obtain p where "lookupPath v0 (p @ [Key k]) = Some v" ..
    with m have "lookupPath (JObj props) ((Key key0 # p) @ [Key k]) = Some v" by simp
    then show ?thesis by blast
  qed
qed simp_all

lemmas sanitizer_eval =
  defaultSanitizationParams_def isSensitive_def isSkipped_def toLowerCase_def
  lowerChar_def str_includes_def processString_def truncateString_def substring0_def
  sanitizeUrl_def

text \<open>
  Claim C1, as amended. For every value and every policy:

  \<^item> every field of the output whose key matches a sensitive key (the lowered key equals
    or contains a lowered sensitive key) holds the policy's mask value, at any depth
    below objects and arrays;

  \<^item> a field of the input whose key matches a sensitive key, at any path through objects
    and arrays, is in the output at the same path with the mask as its value, when
    \<^verbatim>\<open>skipProperties\<close> deletes neither the field nor a field above it and no
    field above it is sensitive itself; otherwise the output has nothing at that path
    (the field is deleted, or it went with the field above it, which was deleted or
    replaced by the mask). In neither case does the path lead to what the field held.

  With the default policy, \<^verbatim>\<open>{token: "abc123", nested: {password: "xyz"}}\<close>
  becomes \<^verbatim>\<open>{token: "********", nested: {password: "********"}}\<close>, and
  \<^verbatim>\<open>{users: [{name: "ann", userPassword: "xyz"}, 7]}\<close> becomes
  \<^verbatim>\<open>{users: [{name: "ann", userPassword: "********"}, 7]}\<close>.
\<close>

theorem sanitizeData_masks_sensitive:
  "(\<forall>(k, v) \<in> set (allFields (sanitizeData c x)).
      isSensitive c k \<longrightarrow> v = JStr (maskValue c)) \<and>
   (lookupPath x (p @ [Key k]) \<noteq> None \<and> isSensitive c k \<longrightarrow>
      lookupPath (sanitizeData c x) (p @ [Key k]) =
        (if pathKept c p \<and> \<not> isSkipped c k then Some (JStr (maskValue c)) else None)) \<and>
   sanitizeData defaultSanitizationParams
     (JObj [(''token'', JStr ''abc123''), (''nested'', JObj [(''password'', JStr ''xyz'')])])
   = JObj [(''token'', JStr ''********''),
           (''nested'', JObj [(''password'', JStr ''********'')])] \<and>
   sanitizeData defaultSanitizationParams
     (JObj [(''users'', JArr [JObj [(''name'', JStr ''ann''), (''userPassword'', JStr ''xyz'')],
                             JNum 7])])
   = JObj [(''users'', JArr [JObj [(''name'', JStr ''ann''), (''userPassword'', JStr ''********'')],
                             JNum 7])]"
proof (intro conjI)
  show "\<forall>(k, v) \<in> set (allFields (sanitizeData c x)).
      isSensitive c k \<longrightarrow> v = JStr (maskValue c)"
    using allFields_sanitizeData by blast
  show "lookupPath x (p @ [Key k]) \<noteq> None \<and> isSensitive c k \<longrightarrow>
      lookupPath (sanitizeData c x) (p @ [Key k]) =
        (if pathKept c p \<and> \<not> isSkipped c k then Some (JStr (maskValue c)) else None)"
    using lookupPath_sanitizeData by blast
  show "sanitizeData defaultSanitizationParams
     (JObj [(''token'', JStr ''abc123''), (''nested'', JObj [(''password'', JStr ''xyz'')])])
   = JObj [(''token'', JStr ''********''),
           (''nested'', JObj [(''password'', JStr ''********'')])]"
    by code_simp
  show "sanitizeData defaultSanitizationParams
     (JObj [(''users'', JArr [JObj [(''name'', JStr ''ann''), (''userPassword'', JStr ''xyz'')],
                             JNum 7])])
   = JObj [(''users'', JArr [JObj [(''name'', JStr ''ann''), (''userPassword'', JStr ''********'')],
                             JNum 7])]"
    by code_simp
qed

theorem sanitizeData_masks_sensitive_witness:
  "lookupPath (JObj [(''users'', JArr [JObj [(''name'', JStr ''ann''), (''userPassword'', JStr ''xyz'')]])])
     ([Key ''users'', Index 0] @ [Key ''userPassword'']) = Some (JStr ''xyz'') \<and>
   isSensitive defaultSanitizationParams ''userPassword'' \<and>
   pathKept defaultSanitizationParams [Key ''users'', Index 0] \<and>
   \<not> isSkipped defaultSanitizationParams ''userPassword'' \<and>
   lookupPath
     (sanitizeData defaultSanitizationParams
        (JObj [(''users'', JArr [JObj [(''name'', JStr ''ann''), (''userPassword'', JStr ''xyz'')]])]))
     ([Key ''users'', Index 0] @ [Key ''userPassword'']) = Some (JStr ''********'') \<and>
   (''userPassword'', JStr ''xyz'') \<notin> set (allFields
     (sanitizeData defaultSanitizationParams
        (JObj [(''users'', JArr [JObj [(''name'', JStr ''ann''), (''userPassword'', JStr ''xyz'')]])])))"
proof -
  define c where "c = defaultSanitizationParams"
  define x where
    "x = JObj [(''users'', JArr [JObj [(''name'', JStr ''ann''), (''userPassword'', JStr ''xyz'')]])]"
  define p where "p = [Key ''users'', Index 0]"
  define key where "key = ''userPassword''"
  have l: "lookupPath x (p @ [Key key]) = Some (JStr ''xyz'')"
    by (simp add: x_def p_def key_def)
  have s: "isSensitive c key" unfolding c_def key_def by code_simp
  have k: "pathKept c p" unfolding c_def p_def by code_simp
  have n: "\<not> isSkipped c key" unfolding c_def key_def by code_simp
  have m: "maskValue c = ''********''" by (simp add: c_def defaultSanitizationParams_def)
  note t = sanitizeData_masks_sensitive[of c x p key]
  from t have t1: "\<forall>(k, v) \<in> set (allFields (sanitizeData c x)).
      isSensitive c k \<longrightarrow> v = JStr (maskValue c)"
    by (rule conjunct1)
  from t have t2: "lookupPath x (p @ [Key key]) \<noteq> None \<and> isSensitive c key \<longrightarrow>
      lookupPath (sanitizeData c x) (p @ [Key key]) =
        (if pathKept c p \<and> \<not> isSkipped c key then Some (JStr (maskValue c)) else None)"
    by (rule conjunct2[THEN conjunct1])
  from t2 l s k n m have a: "lookupPath (sanitizeData c x) (p @ [Key key]) = Some (JStr ''********'')"
    by simp
  have b: "(key, JStr ''xyz'') \<notin> set (allFields (sanitizeData c x))"
  proof
    assume "(key, JStr ''xyz'') \<in> set (allFields (sanitizeData c x))"
    with t1 s have "JStr ''xyz'' = JStr (maskValue c)" by blast
    with m show False by simp
  qed
  from l s k n a b show ?thesis unfolding c_def x_def p_def key_def by (intro conjI)
qed

text \<open>
  Claim C1 as stated fails on \<^emph>\<open>always replaced with the mask value\<close>: a sensitive
  field whose key \<^verbatim>\<open>skipProperties\<close> matches is deleted before the masking, so the
  output has no such field, with the mask or without.
\<close>

theorem sanitizeData_deletes_skipped_field:
  "isSensitive (defaultSanitizationParams\<lparr> skipProperties := Some [''token''] \<rparr>) ''token'' \<and>
   sanitizeData (defaultSanitizationParams\<lparr> skipProperties := Some [''token''] \<rparr>)
     (JObj [(''user'', JStr ''ann''), (''token'', JStr ''abc123'')])
   = JObj [(''user'', JStr ''ann'')] \<and>
   sanitizeData (defaultSanitizationParams\<lparr> skipProperties := Some [''token''] \<rparr>)
     (JObj [(''user'', JStr ''ann''), (''token'', JStr ''abc123'')])
   \<noteq> JObj [(''user'', JStr ''ann''), (''token'', JStr ''********'')]"
  by code_simp

section \<open>The message cleaner\<close>

lemma colorParams_suffix: "suffix (colorParams cs) cs"
proof (induction cs rule: colorParams.induct)
  case 1
  then show ?case by simp
next
  case (2 c cs)
  show ?case
  proof (cases "c = CHR '';'' \<and> takeWhile isDigit cs \<noteq> []")
    case True
    with 2 have "suffix (colorParams (dropWhile isDigit cs)) (dropWhile isDigit cs)" by simp
    moreover have "suffix (dropWhile isDigit cs) (c # cs)"
      by (simp add: suffix_dropWhile suffix_ConsI)
    ultimately show ?thesis using True by (auto intro: suffix_order.trans)
  next
    case False
    then show ?thesis by auto
  qed
qed

lemma matchColor_suffix: "matchColor cs = Some rest \<Longrightarrow> suffix rest cs"
proof -
  assume "matchColor cs = Some rest"
  then obtain r where cs: "cs = CHR ''['' # r"
    and cp: "colorParams (dropWhile isDigit r) = CHR ''m'' # rest"
    by (auto simp: matchColor_def split: list.splits if_splits)
  have "suffix rest (CHR ''m'' # rest)" by (simp add: suffix_ConsI)
  also have "suffix (CHR ''m'' # rest) (dropWhile isDigit r)"
    using colorParams_suffix[of "dropWhile isDigit r"] cp by simp
  also have "suffix (dropWhile isDigit r) r" by (rule suffix_dropWhile)
  also have "suffix r cs" using cs by (simp add: suffix_ConsI)
  finally show ?thesis .
qed

lemma matchControl_suffix: "matchControl cs = Some rest \<Longrightarrow> suffix rest cs"
proof -
  assume a: "matchControl cs = Some rest"
  let ?r = "(case cs of [] \<Rightarrow> [] | q # r \<Rightarrow> if q = CHR ''?'' then r else q # r)"
  from a obtain l where d: "dropWhile (\<lambda>c. isDigit c \<or> c = CHR '';'') ?r = l # rest"
    by (auto simp: matchControl_def split: list.splits if_splits)
  have "suffix rest (l # rest)" by (simp add: suffix_ConsI)
  also have "suffix (l # rest) ?r" using suffix_dropWhile[of "\<lambda>c. isDigit c \<or> c = CHR '';''" ?r] d by simp
  also have "suffix ?r cs" by (auto split: list.splits simp: suffix_ConsI)
  finally show ?thesis .
qed

lemma matchAnsi_suffix: "matchAnsi cs = Some rest \<Longrightarrow> suffix rest cs"
  by (auto simp: matchAnsi_def split: option.splits dest: matchColor_suffix matchControl_suffix)

lemma set_stripAnsi: "set (stripAnsi s) \<subseteq> set s"
proof (induction s rule: stripAnsi.induct)
  case 1
  then show ?case by simp
next
  case (2 c cs)
  show ?case
  proof (cases "c = ESC")
    case True
    show ?thesis
    proof (cases "matchAnsi cs")
      case None
      with True 2 show ?thesis by auto
    next
      case (Some rest)
      from matchAnsi_suffix[OF Some] have "set rest \<subseteq> set cs" by (rule set_mono_suffix)
      with "2.IH"(2)[OF True Some] True Some show ?thesis by auto
    qed
  next
    case False
    with 2 show ?thesis by auto
  qed
qed

lemma set_stripErrorPrefix: "set (stripErrorPrefix s) \<subseteq> set s"
  by (auto simp: stripErrorPrefix_def Let_def dest: in_set_dropD in_set_butlastD)

lemma set_trim: "set (trim s) \<subseteq> set s"
  by (auto simp: trim_def dest!: set_dropWhileD)

lemma set_cleanMessage: "set (cleanMessage s) \<subseteq> set (stripAnsi (sanitizeString s))"
  using set_stripErrorPrefix[of "stripAnsi (sanitizeString s)"]
  by (auto simp: cleanMessage_def dest!: set_takeWhileD)

lemma cleanMessage_no_LF: "LF \<notin> set (cleanMessage s)"
  by (auto simp: cleanMessage_def dest: set_takeWhileD)

lemma quote_free_sanitizeString: "CHR 0x27 \<notin> set (sanitizeString s)"
  using set_trim[of "filter (\<lambda>c. c \<notin> set [CHR 0x22, CHR 0x27, CHR 0x5C, CHR ''<'', CHR ''>'']) s"]
  by (auto simp: sanitizeString_def)

lemma stripErrorPrefix_quote_free: "CHR 0x27 \<notin> set s \<Longrightarrow> stripErrorPrefix s = s"
proof -
  assume a: "CHR 0x27 \<notin> set s"
  have 1: "\<not> startsWith s (CHR 0x27 # t)" for t using a by (cases s) auto
  have 2: "s \<noteq> [] \<Longrightarrow> last s \<noteq> CHR 0x27" using a last_in_set by metis
  show ?thesis using 1 2 by (auto simp: stripErrorPrefix_def)
qed

lemma cleanMessage_prefix_step_dead:
  "stripErrorPrefix (stripAnsi (sanitizeString s)) = stripAnsi (sanitizeString s)"
  using quote_free_sanitizeString[of s] set_stripAnsi[of "sanitizeString s"]
  by (intro stripErrorPrefix_quote_free) auto

text \<open>
  Claim C6. No output of \<^verbatim>\<open>cleanMessage\<close> holds a newline, and a colour code
  \<^verbatim>\<open>ESC [ digits (; digits)* m\<close> is removed. The other control sequences are not:
  the second alternative of the pattern, \<^verbatim>\<open>ESC\??[0-9;]*[A-Za-z]\<close>, has no
  bracket after the ESC, so it matches nothing that starts with \<^verbatim>\<open>ESC [\<close>.
  \<^verbatim>\<open>cleanMessage("\u001b[2Jhello")\<close> (erase the display) comes back as it went in,
  with its ESC.
\<close>

theorem cleanMessage_keeps_control_sequence:
  "cleanMessage (ESC # ''[2Jhello'') = ESC # ''[2Jhello'' \<and>
   ESC \<in> set (cleanMessage (ESC # ''[2Jhello'')) \<and>
   matchAnsi ''[2Jhello'' = None \<and>
   cleanMessage (ESC # ''[1;31mred'' @ ESC # ''[0m'') = ''red'' \<and>
   LF \<notin> set (cleanMessage s)"
proof -
  have "cleanMessage (ESC # ''[2Jhello'') = ESC # ''[2Jhello''" by code_simp
  moreover have "ESC \<in> set (cleanMessage (ESC # ''[2Jhello''))" by code_simp
  moreover have "matchAnsi ''[2Jhello'' = None" by code_simp
  moreover have "cleanMessage (ESC # ''[1;31mred'' @ ESC # ''[0m'') = ''red''" by code_simp
  ultimately show ?thesis using cleanMessage_no_LF by blast
qed

text \<open>
  An ESC that starts no sequence at all stays as well: the pattern asks for a letter
  after it.
\<close>

lemma cleanMessage_lone_ESC:
  "cleanMessage [ESC] = [ESC] \<and> cleanMessage (''a'' @ ESC # ''1'') = ''a'' @ ESC # ''1''"
  by code_simp

text \<open>
  Claim C7. \<^verbatim>\<open>sanitizeString\<close> has removed every single quote before the
  replacement of \<^verbatim>\<open>/^'Error: |^'|'$/g\<close> runs, so that replacement never matches
  and the text \<^verbatim>\<open>Error: \<close> stays: \<^verbatim>\<open>cleanMessage("'Error: boom'")\<close> is
  \<^verbatim>\<open>"Error: boom"\<close>, not \<^verbatim>\<open>"boom"\<close>.
\<close>

theorem cleanMessage_keeps_Error_prefix:
  "cleanMessage (CHR 0x27 # ''Error: boom'' @ [CHR 0x27]) = ''Error: boom''"
  by code_simp

section \<open>Classification and the error record\<close>


text \<open>
  Claim C8. In the classification of a native error the code tier comes before the
  keyword tier: an \<^verbatim>\<open>Error\<close> whose \<^verbatim>\<open>code\<close> is \<^verbatim>\<open>ENOENT\<close> is
  \<^verbatim>\<open>FILE_NOT_FOUND\<close> whatever text its message holds, also a text with
  \<^verbatim>\<open>permission\<close> in it. \<^verbatim>\<open>categorizeError\<close> reaches that classification
  for an \<^verbatim>\<open>Error\<close> that is no HTTP client error and has no matcher result.
\<close>

theorem enoent_outranks_keywords:
  assumes "codeProp e = Some (JStr ''ENOENT'')" and "messageProp e = JStr m"
  shows "categorizeErrorByMessage e = Inr FILE_NOT_FOUND \<and>
         (instanceOfError e \<and> \<not> isAxiosError e \<and> matcherResult e = None
            \<longrightarrow> categorizeError (UObject e) = Inr FILE_NOT_FOUND)"
proof -
  have c: "categorizeErrorByMessage e = Inr FILE_NOT_FOUND"
    using assms by (simp add: categorizeErrorByMessage_def messageToLowerCase_def codeTable_def)
  then show ?thesis by simp
qed

theorem enoent_outranks_keywords_witness:
  "categorizeErrorByMessage ((plainError ''permission denied'')\<lparr> codeProp := Some (JStr ''ENOENT'') \<rparr>)
     = Inr FILE_NOT_FOUND \<and>
   categorizeError (UObject ((plainError ''permission denied'')\<lparr> codeProp := Some (JStr ''ENOENT'') \<rparr>))
     = Inr FILE_NOT_FOUND \<and>
   categorizeErrorByMessage (plainError ''permission denied'') = Inr PERMISSION"
proof -
  let ?e = "(plainError ''permission denied'')\<lparr> codeProp := Some (JStr ''ENOENT'') \<rparr>"
  have 1: "codeProp ?e = Some (JStr ''ENOENT'')" by simp
  have 2: "messageProp ?e = JStr ''permission denied''" by (simp add: plainError_def)
  have 3: "instanceOfError ?e \<and> \<not> isAxiosError ?e \<and> matcherResult ?e = None"
    by (simp add: plainError_def)
  have 4: "categorizeErrorByMessage (plainError ''permission denied'') = Inr PERMISSION"
    by code_simp
  from enoent_outranks_keywords[OF 1 2] 3 4 show ?thesis by blast
qed





section \<open>The handler\<close>

lemma shouldSkip_cases:
  assumes "shouldSkipErrorLogging env error ctx"
  obtains e st c where "error = UObject e" "isAxiosError e" "responseStatus e = Some st"
    "st \<noteq> 0" "ctx = Some c" "c \<noteq> []" "isExpectedStatus env c st" "isNegativeTest env c"
  using assms
  by (auto simp: shouldSkipErrorLogging_def split: option.splits if_splits unknown.splits)

text \<open>
  Claim C9. When \<^verbatim>\<open>shouldSkipErrorLogging\<close> holds, the error is of the HTTP
  client's shape with a status, the context is given, and \<^verbatim>\<open>RequestContext\<close>
  marks the status as expected for a negative test. \<^verbatim>\<open>captureError\<close> then adds
  one informational line, which names the context and the status, and nothing else: no
  record is built, and the set of logged fingerprints is the one it was.
\<close>

theorem expected_error_only_info:
  assumes "shouldSkipErrorLogging env error ctx"
  shows "\<exists>e st c. error = UObject e \<and> isAxiosError e \<and> responseStatus e = Some st \<and> st \<noteq> 0 \<and>
           ctx = Some c \<and> isExpectedStatus env c st \<and> isNegativeTest env c \<and>
           captureError env error src ctx s =
             Inr (s\<lparr> logLines := logLines s @
                        [LogInfo (''Expected error in negative test ['' @ c
                                  @ '']: Status '' @ showInt st)] \<rparr>)"
proof -
  from assms obtain e st c where h: "error = UObject e" "isAxiosError e"
    "responseStatus e = Some st" "st \<noteq> 0" "ctx = Some c" "c \<noteq> []"
    "isExpectedStatus env c st" "isNegativeTest env c"
    by (rule shouldSkip_cases)
  have "captureError env error src ctx s =
          Inr (s\<lparr> logLines := logLines s @
                     [LogInfo (''Expected error in negative test ['' @ c
                               @ '']: Status '' @ showInt st)] \<rparr>)"
    using assms h by (simp add: captureError_def tryBlock_def loggerInfo_def)
  with h show ?thesis by blast
qed

theorem expected_error_only_info_witness:
  "shouldSkipErrorLogging exampleEnv
     (UObject (httpError 401 ''Unauthorized'' ''POST'' ''/login'')) (Some ''negative login'') \<and>
   captureError exampleEnv (UObject (httpError 401 ''Unauthorized'' ''POST'' ''/login''))
     ''authApi'' (Some ''negative login'')
     \<lparr> loggedErrors = [''a_UNKNOWN_b''], logLines = [] \<rparr>
   = Inr \<lparr> loggedErrors = [''a_UNKNOWN_b''],
           logLines = [LogInfo ''Expected error in negative test [negative login]: Status 401''] \<rparr>"
proof -
  let ?err = "UObject (httpError 401 ''Unauthorized'' ''POST'' ''/login'')"
  let ?s = "\<lparr> loggedErrors = [''a_UNKNOWN_b''], logLines = [] \<rparr>"
  have sk: "shouldSkipErrorLogging exampleEnv ?err (Some ''negative login'')" by code_simp
  have st: "responseStatus (httpError 401 ''Unauthorized'' ''POST'' ''/login'') = Some 401"
    by (simp add: responseStatus_def httpError_def)
  have d: "showInt 401 = ''401''" by code_simp
  from expected_error_only_info[OF sk, of "''authApi''" ?s] st d sk show ?thesis by auto
qed


text \<open>
  What the \<^verbatim>\<open>catch\<close> clause of \<^verbatim>\<open>captureError\<close> does with what the
  \<^verbatim>\<open>try\<close> block threw. An error of the run-time system has a text as its
  message: the fallback record is logged, and the call returns. So it is for an
  \<^verbatim>\<open>Error\<close> of the program whose message is a text or is falsy. For one whose
  message is another value, \<^verbatim>\<open>cleanMessage\<close> calls \<^verbatim>\<open>replace\<close> on that
  value, and the \<^verbatim>\<open>TypeError\<close> leaves \<^verbatim>\<open>captureError\<close>.
\<close>

lemma captureError_returns:
  "tryBlock env error src ctx s = (s1, None) \<Longrightarrow> captureError env error src ctx s = Inr s1"
  by (simp add: captureError_def)

lemma captureError_fallback:
  assumes "tryBlock env error src ctx s = (s1, Some t)"
    and "t = Raised ex \<and> msg = cleanMessage (exnMessage ex) \<or>
         t = ThrownError (JStr m) \<and> msg = cleanMessage m \<or>
         t = ThrownError v \<and> \<not> truthy v \<and> (\<forall>m. v \<noteq> JStr m) \<and> msg = []"
  shows "captureError env error src ctx s =
           Inr (s1\<lparr> logLines := logLines s1 @
                       [LogError (JObj [(''source'', JStr src),
                                        (''context'', JStr ''Error Handler Failure''),
                                        (''message'', JStr msg),
                                        (''category'', JStr (categoryValue UNKNOWN))])] \<rparr>)"
  using assms
  by (cases v)
     (auto simp: captureError_def thrownError_def cleanMessageOf_def loggerError_def
        fallbackRecord_def)

lemma captureError_raises:
  assumes "tryBlock env error src ctx s = (s1, Some (ThrownError v))"
    and "truthy v" and "\<forall>m. v \<noteq> JStr m"
  shows "captureError env error src ctx s
           = Inl (Raised (TypeError ''value.replace is not a function''))"
  using assms
  by (cases v) (auto simp: captureError_def thrownError_def cleanMessageOf_def)

lemma tryBlock_throwingObject:
  "tryBlock env (UObject (throwingObject v)) src None s = (s, Some (ThrownError v))"
  by (simp add: tryBlock_def shouldSkipErrorLogging_def createErrorDetails_def
      getContextFromError_def throwingObject_def)

text \<open>
  Claim C3. \<^verbatim>\<open>captureError\<close> does raise. Take an object whose conversion to a
  string throws an \<^verbatim>\<open>Error\<close> with the object \<^verbatim>\<open>{a: 1}\<close> as its message,
  and no context. The \<^verbatim>\<open>try\<close> block throws that error from
  \<^verbatim>\<open>String(error)\<close>, before anything is logged; the \<^verbatim>\<open>catch\<close> clause passes
  it to \<^verbatim>\<open>getErrorMessage\<close>, which is inside no \<^verbatim>\<open>try\<close>, and the
  \<^verbatim>\<open>TypeError\<close> of \<^verbatim>\<open>value.replace\<close> leaves \<^verbatim>\<open>captureError\<close>: no
  fallback record is logged.
\<close>

theorem captureError_raises_on_thrown_object_message:
  "tryBlock exampleEnv (UObject (throwingObject (JObj [(''a'', JNum 1)]))) ''svc'' None emptyState
     = (emptyState, Some (ThrownError (JObj [(''a'', JNum 1)]))) \<and>
   getErrorMessage exampleEnv (thrownError (ThrownError (JObj [(''a'', JNum 1)])))
     = Inl (TypeError ''value.replace is not a function'') \<and>
   captureError exampleEnv (UObject (throwingObject (JObj [(''a'', JNum 1)]))) ''svc'' None emptyState
     = Inl (Raised (TypeError ''value.replace is not a function''))"
proof -
  let ?v = "JObj [(''a'', JNum 1)]"
  have t: "tryBlock exampleEnv (UObject (throwingObject ?v)) ''svc'' None emptyState
             = (emptyState, Some (ThrownError ?v))"
    by (rule tryBlock_throwingObject)
  have g: "getErrorMessage exampleEnv (thrownError (ThrownError ?v))
             = Inl (TypeError ''value.replace is not a function'')"
    by (simp add: thrownError_def cleanMessageOf_def)
  have c: "captureError exampleEnv (UObject (throwingObject ?v)) ''svc'' None emptyState
             = Inl (Raised (TypeError ''value.replace is not a function''))"
    using t by (rule captureError_raises) simp_all
  from t g c show ?thesis by simp
qed

text \<open>
  An \<^verbatim>\<open>Error\<close> whose own message is no text is caught: the run-time system's
  \<^verbatim>\<open>TypeError\<close> has a text as its message, and the fallback record is logged.
\<close>

lemma captureError_fallback_example:
  "captureError exampleEnv (UObject ((plainError [])\<lparr> messageProp := JNum 5 \<rparr>)) ''svc'' None emptyState
     = Inr \<lparr> loggedErrors = [],
             logLines = [LogError (JObj [(''source'', JStr ''svc''),
                                         (''context'', JStr ''Error Handler Failure''),
                                         (''message'', JStr ''error.message.toLowerCase is not a function''),
                                         (''category'', JStr ''UNKNOWN'')])] \<rparr>"
proof -
  let ?err = "UObject ((plainError [])\<lparr> messageProp := JNum 5 \<rparr>)"
  have t: "tryBlock exampleEnv ?err ''svc'' None emptyState
     = (emptyState, Some (Raised (TypeError ''error.message.toLowerCase is not a function'')))"
    by code_simp
  have m: "cleanMessage ''error.message.toLowerCase is not a function'' = ''error.message.toLowerCase is not a function''"
    by code_simp
  have u: "categoryValue UNKNOWN = ''UNKNOWN''" by code_simp
  from captureError_fallback[OF t, where msg = "''error.message.toLowerCase is not a function''"
      and ex = "TypeError ''error.message.toLowerCase is not a function''"] m u
  show ?thesis by (simp add: emptyState_def)
qed



lemma manageCacheSize_new:
  assumes "k \<notin> set (loggedErrors s)"
  shows "loggedErrors (manageCacheSize k s) =
           (if length (loggedErrors s) < MAX_CACHE_SIZE then loggedErrors s @ [k]
            else tl (loggedErrors s @ [k]))"
  using assms by (auto simp: manageCacheSize_def Let_def split: list.splits)



lemma fill_cache:
  "distinct (loggedErrors s @ ks) \<Longrightarrow> length (loggedErrors s @ ks) \<le> MAX_CACHE_SIZE \<Longrightarrow>
   loggedErrors (fold manageCacheSize ks s) = loggedErrors s @ ks"
proof (induction ks arbitrary: s)
  case Nil
  then show ?case by simp
next
  case (Cons k ks)
  from Cons.prems have new: "k \<notin> set (loggedErrors s)"
    and room: "length (loggedErrors s) < MAX_CACHE_SIZE" by auto
  then have step: "loggedErrors (manageCacheSize k s) = loggedErrors s @ [k]"
    by (simp add: manageCacheSize_new)
  with Cons.prems Cons.IH[of "manageCacheSize k s"] show ?case by simp
qed
















section \<open>The sanitizer on a store\<close>

lemma prefix_list_update:
  assumes "prefix h0 h" and "length h0 \<le> a"
  shows "prefix h0 (h[a := x])"
proof -
  from assms(1) obtain ext where "h = h0 @ ext" by (auto simp: prefix_def)
  with assms(2) show ?thesis by (simp add: list_update_append)
qed

lemma prefix_pushItem: "prefix h0 h \<Longrightarrow> length h0 \<le> a \<Longrightarrow> prefix h0 (pushItem a v h)"
  by (auto simp: pushItem_def prefix_list_update split: option.splits hobj.splits)

lemma prefix_setProperty:
  "prefix h0 h \<Longrightarrow> length h0 \<le> a \<Longrightarrow> prefix h0 (setProperty a key v h)"
  by (auto simp: setProperty_def prefix_list_update split: option.splits hobj.splits)

lemma length_pushItem: "length (pushItem a v h) = length h"
  by (auto simp: pushItem_def split: option.splits hobj.splits)

lemma length_setProperty: "length (setProperty a key v h) = length h"
  by (auto simp: setProperty_def split: option.splits hobj.splits)

lemma store_frame:
  "prefix h (snd (sanitizeDataS depth cfg data h))"
  "\<forall>h0. prefix h0 h \<and> length h0 \<le> result
        \<longrightarrow> prefix h0 (snd (mapItems depth cfg items result h))
            \<and> length h \<le> length (snd (mapItems depth cfg items result h))"
  "\<forall>h0. prefix h0 h \<and> length h0 \<le> sanitizedObject
        \<longrightarrow> prefix h0 (snd (forEachKey depth cfg keys sanitizedObject h))
            \<and> length h \<le> length (snd (forEachKey depth cfg keys sanitizedObject h))"
proof (induction depth cfg data h and depth cfg items result h
         and depth cfg keys sanitizedObject h
       rule: sanitizeDataS_mapItems_forEachKey.induct)
  case (1 config data h)
  then show ?case by simp
next
  case (2 depth config data h)
  show ?case
  proof (cases data)
    case (HStr s)
    then show ?thesis by (simp split: option.splits)
  next
    case (HRef a)
    show ?thesis
    proof (cases "lookupObject h a")
      case None
      with HRef show ?thesis by simp
    next
      case (Some obj)
      show ?thesis
      proof (cases obj)
        case (HArray items)
        have "prefix h (snd (mapItems depth config items (length h) (h @ [HArray []])))"
          using "2.IH"(1)[OF HRef Some HArray, unfolded allocate_def, OF refl]
          by simp
        with HRef Some HArray show ?thesis by (simp add: allocate_def)
      next
        case (HObject props)
        let ?kept = "filter (\<lambda>(key, v). \<not> isSkipped config key) props"
        let ?h2 = "(h @ [HObject props])[length h := HObject ?kept]"
        have "prefix h ?h2" by (simp add: prefix_list_update)
        then have "prefix h (snd (forEachKey depth config (map fst ?kept) (length h) ?h2))"
          using "2.IH"(2)[OF HRef Some HObject, unfolded allocate_def, OF refl refl refl]
          by simp
        with HRef Some HObject show ?thesis by (simp add: allocate_def Let_def)
      qed
    qed
  qed simp_all
next
  case (3 depth config result h)
  then show ?case by simp
next
  case (4 depth config item items result h)
  show ?case
  proof (intro allI impI)
    fix h0 assume a: "prefix h0 h \<and> length h0 \<le> result"
    obtain r h' where step:
      "(if isReference item then sanitizeDataS depth config item h else (Inr item, h)) = (r, h')"
      by (cases "if isReference item then sanitizeDataS depth config item h else (Inr item, h)")
    have ph: "prefix h h'"
    proof (cases "isReference item")
      case True
      with "4.IH"(1)[OF True] step show ?thesis by (metis snd_conv)
    next
      case False
      with step show ?thesis by simp
    qed
    then have lh: "length h \<le> length h'" by (rule prefix_length_le)
    from ph a have p0: "prefix h0 h'" by (auto intro: prefix_order.trans)
    show "prefix h0 (snd (mapItems depth config (item # items) result h))
          \<and> length h \<le> length (snd (mapItems depth config (item # items) result h))"
    proof (cases r)
      case (Inl ex)
      with step p0 lh show ?thesis by simp
    next
      case (Inr v)
      have "prefix h0 (pushItem result v h')" using p0 a by (simp add: prefix_pushItem)
      with "4.IH"(2)[OF step[symmetric] Inr] a step Inr lh show ?thesis
        by (auto simp: length_pushItem)
    qed
  qed
next
  case (5 depth config sanitizedObject h)
  then show ?case by simp
next
  case (6 depth config key keys sanitizedObject h)
  show ?case
  proof (intro allI impI)
    fix h0 assume a: "prefix h0 h \<and> length h0 \<le> sanitizedObject"
    show "prefix h0 (snd (forEachKey depth config (key # keys) sanitizedObject h))
          \<and> length h \<le> length (snd (forEachKey depth config (key # keys) sanitizedObject h))"
    proof (cases "isSensitive config key")
      case True
      have "prefix h0 (setProperty sanitizedObject key (HStr (maskValue config)) h)"
        using a by (simp add: prefix_setProperty)
      with "6.IH"(1)[OF True] a True show ?thesis by (auto simp: length_setProperty)
    next
      case False
      show ?thesis
      proof (cases "readProperty h sanitizedObject key")
        case (HStr s)
        have "prefix h0 (setProperty sanitizedObject key (HStr (processString config s)) h)"
          using a by (simp add: prefix_setProperty)
        with "6.IH"(6)[OF False HStr] a False HStr show ?thesis
          by (auto simp: length_setProperty)
      next
        case (HRef b)
        obtain r h' where step: "sanitizeDataS depth config (HRef b) h = (r, h')"
          by (cases "sanitizeDataS depth config (HRef b) h")
        from "6.IH"(7)[OF False HRef] step have ph: "prefix h h'" by (metis snd_conv)
        then have lh: "length h \<le> length h'" by (rule prefix_length_le)
        from ph a have p0: "prefix h0 h'" by (auto intro: prefix_order.trans)
        show ?thesis
        proof (cases r)
          case (Inl ex)
          with step p0 lh False HRef show ?thesis by simp
        next
          case (Inr v)
          have "prefix h0 (setProperty sanitizedObject key v h')"
            using p0 a by (simp add: prefix_setProperty)
          with "6.IH"(8)[OF False HRef step[symmetric] Inr] a step Inr False HRef lh
          show ?thesis by (auto simp: length_setProperty)
        qed
      next
        case HUndefined
        with "6.IH"(2)[OF False HUndefined] a False show ?thesis by simp
      next
        case HNull
        with "6.IH"(3)[OF False HNull] a False show ?thesis by simp
      next
        case (HBool b)
        with "6.IH"(4)[OF False HBool] a False show ?thesis by simp
      next
        case (HNum n)
        with "6.IH"(5)[OF False HNum] a False show ?thesis by simp
      qed
    qed
  qed
qed

lemma mapItems_frame:
  "prefix h0 h \<Longrightarrow> length h0 \<le> result \<Longrightarrow>
   prefix h0 (snd (mapItems depth cfg items result h))
   \<and> length h \<le> length (snd (mapItems depth cfg items result h))"
  using store_frame(2) by blast

lemma forEachKey_frame:
  "prefix h0 h \<Longrightarrow> length h0 \<le> sanitizedObject \<Longrightarrow>
   prefix h0 (snd (forEachKey depth cfg keys sanitizedObject h))
   \<and> length h \<le> length (snd (forEachKey depth cfg keys sanitizedObject h))"
  using store_frame(3) by blast

lemma mapItems_result:
  "fst (mapItems depth cfg items result h) = Inr v \<Longrightarrow> v = HRef result"
proof (induction items arbitrary: h)
  case Nil
  then show ?case by simp
next
  case (Cons item items)
  obtain r h' where step:
    "(if isReference item then sanitizeDataS depth cfg item h else (Inr item, h)) = (r, h')"
    by (cases "if isReference item then sanitizeDataS depth cfg item h else (Inr item, h)")
  show ?case
  proof (cases r)
    case (Inl ex)
    with step Cons.prems show ?thesis by simp
  next
    case (Inr w)
    with step Cons.prems Cons.IH[of "pushItem result w h'"] show ?thesis by simp
  qed
qed

lemma forEachKey_result:
  "fst (forEachKey depth cfg keys sanitizedObject h) = Inr v \<Longrightarrow> v = HRef sanitizedObject"
proof (induction keys arbitrary: h)
  case Nil
  then show ?case by simp
next
  case (Cons key keys)
  show ?case
  proof (cases "isSensitive cfg key")
    case True
    with Cons.prems Cons.IH show ?thesis by simp
  next
    case False
    show ?thesis
    proof (cases "readProperty h sanitizedObject key")
      case (HRef b)
      obtain r h' where step: "sanitizeDataS depth cfg (HRef b) h = (r, h')"
        by (cases "sanitizeDataS depth cfg (HRef b) h")
      show ?thesis
      proof (cases r)
        case (Inl ex)
        with step Cons.prems False HRef show ?thesis by simp
      next
        case (Inr w)
        with step Cons.prems False HRef Cons.IH[of "setProperty sanitizedObject key w h'"]
        show ?thesis by simp
      qed
    qed (use Cons.prems Cons.IH False in auto)
  qed
qed

lemma sanitizeDataS_fresh:
  assumes "fst (sanitizeDataS depth cfg data h) = Inr (HRef b)"
  shows "length h \<le> b \<and> b < length (snd (sanitizeDataS depth cfg data h))"
proof (cases depth)
  case 0
  with assms show ?thesis by simp
next
  case (Suc d)
  show ?thesis
  proof (cases data)
    case (HRef a)
    show ?thesis
    proof (cases "lookupObject h a")
      case None
      with assms Suc HRef show ?thesis by simp
    next
      case (Some obj)
      show ?thesis
      proof (cases obj)
        case (HArray items)
        let ?run = "mapItems d cfg items (length h) (h @ [HArray []])"
        have run: "sanitizeDataS depth cfg data h = ?run"
          using Suc HRef Some HArray by (simp add: allocate_def)
        with assms have "b = length h" using mapItems_result[of d cfg items "length h"] by auto
        moreover have "length (h @ [HArray []]) \<le> length (snd ?run)"
          using mapItems_frame[of "[]" "h @ [HArray []]" "length h" d cfg items] by simp
        ultimately show ?thesis using run by simp
      next
        case (HObject props)
        let ?kept = "filter (\<lambda>(key, v). \<not> isSkipped cfg key) props"
        let ?h2 = "(h @ [HObject props])[length h := HObject ?kept]"
        let ?run = "forEachKey d cfg (map fst ?kept) (length h) ?h2"
        have run: "sanitizeDataS depth cfg data h = ?run"
          using Suc HRef Some HObject by (simp add: allocate_def Let_def)
        with assms have "b = length h"
          using forEachKey_result[of d cfg "map fst ?kept" "length h"] by auto
        moreover have "length ?h2 \<le> length (snd ?run)"
          using forEachKey_frame[of "[]" ?h2 "length h" d cfg "map fst ?kept"] by simp
        ultimately show ?thesis using run by simp
      qed
    qed
  next
    case (HStr s)
    with assms Suc show ?thesis by (simp split: option.splits if_splits)
  qed (use assms Suc in auto)
qed

lemma wellFormed_append: "wellFormed (h @ [obj]) \<longleftrightarrow> wellFormed h \<and> wellFormedObject obj"
  by (simp add: wellFormed_def)

lemma wellFormed_update:
  "wellFormed h \<Longrightarrow> wellFormedObject x \<Longrightarrow> wellFormed (h[a := x])"
  unfolding wellFormed_def list_all_iff
  using set_update_subset_insert[of h a x] by auto

lemma wellFormed_lookup:
  "wellFormed h \<Longrightarrow> lookupObject h a = Some obj \<Longrightarrow> wellFormedObject obj"
  by (auto simp: wellFormed_def lookupObject_def list_all_length split: if_splits)

lemma keys_updateProperty: "map fst (updateProperty key v props) = map fst props"
  by (induction props) auto

lemma wellFormed_pushItem: "wellFormed h \<Longrightarrow> wellFormed (pushItem a v h)"
  by (auto simp: pushItem_def wellFormed_update wellFormedObject_def
      split: option.splits hobj.splits)

lemma wellFormed_setProperty: "wellFormed h \<Longrightarrow> wellFormed (setProperty a key v h)"
proof (cases "lookupObject h a")
  case None
  then show "wellFormed h \<Longrightarrow> ?thesis" by (simp add: setProperty_def)
next
  case (Some obj)
  assume wf: "wellFormed h"
  show ?thesis
  proof (cases obj)
    case (HArray items)
    with Some wf show ?thesis by (simp add: setProperty_def)
  next
    case (HObject props)
    from wellFormed_lookup[OF wf Some] HObject have "distinct (map fst props)"
      by (simp add: wellFormedObject_def)
    then have "wellFormedObject (HObject (updateProperty key v props))"
      by (simp add: wellFormedObject_def keys_updateProperty)
    with Some HObject wf show ?thesis by (simp add: setProperty_def wellFormed_update)
  qed
qed

lemma store_wellFormed:
  "wellFormed h \<longrightarrow> wellFormed (snd (sanitizeDataS depth cfg data h))"
  "wellFormed h \<longrightarrow> wellFormed (snd (mapItems depth cfg items result h))"
  "wellFormed h \<longrightarrow> wellFormed (snd (forEachKey depth cfg keys sanitizedObject h))"
proof (induction depth cfg data h and depth cfg items result h
         and depth cfg keys sanitizedObject h
       rule: sanitizeDataS_mapItems_forEachKey.induct)
  case (1 config data h)
  then show ?case by simp
next
  case (2 depth config data h)
  show ?case
  proof
    assume wf: "wellFormed h"
    show "wellFormed (snd (sanitizeDataS (Suc depth) config data h))"
    proof (cases data)
      case (HStr s)
      with wf show ?thesis by (simp split: option.splits)
    next
      case (HRef a)
      show ?thesis
      proof (cases "lookupObject h a")
        case None
        with HRef wf show ?thesis by simp
      next
        case (Some obj)
        show ?thesis
        proof (cases obj)
          case (HArray items)
          have "wellFormed (h @ [HArray []])"
            using wf by (simp add: wellFormed_append wellFormedObject_def)
          then have "wellFormed (snd (mapItems depth config items (length h) (h @ [HArray []])))"
            using "2.IH"(1)[OF HRef Some HArray, unfolded allocate_def, OF refl] by simp
          with HRef Some HArray show ?thesis by (simp add: allocate_def)
        next
          case (HObject props)
          let ?kept = "filter (\<lambda>(key, v). \<not> isSkipped config key) props"
          let ?h2 = "(h @ [HObject props])[length h := HObject ?kept]"
          from wellFormed_lookup[OF wf Some] HObject have d: "distinct (map fst props)"
            by (simp add: wellFormedObject_def)
          then have "distinct (map fst ?kept)" by (simp add: distinct_map_filter)
          then have "wellFormed ?h2"
            using wf d by (simp add: wellFormed_update wellFormed_append wellFormedObject_def)
          then have "wellFormed (snd (forEachKey depth config (map fst ?kept) (length h) ?h2))"
            using "2.IH"(2)[OF HRef Some HObject, unfolded allocate_def, OF refl refl refl]
            by simp
          with HRef Some HObject show ?thesis by (simp add: allocate_def Let_def)
        qed
      qed
    qed (use wf in simp_all)
  qed
next
  case (3 depth config result h)
  then show ?case by simp
next
  case (4 depth config item items result h)
  show ?case
  proof
    assume wf: "wellFormed h"
    obtain r h' where step:
      "(if isReference item then sanitizeDataS depth config item h else (Inr item, h)) = (r, h')"
      by (cases "if isReference item then sanitizeDataS depth config item h else (Inr item, h)")
    have wf': "wellFormed h'"
    proof (cases "isReference item")
      case True
      with "4.IH"(1)[OF True] step wf show ?thesis by (metis snd_conv)
    next
      case False
      with step wf show ?thesis by simp
    qed
    show "wellFormed (snd (mapItems depth config (item # items) result h))"
    proof (cases r)
      case (Inl ex)
      with step wf' show ?thesis by simp
    next
      case (Inr v)
      with "4.IH"(2)[OF step[symmetric] Inr] wf' step show ?thesis
        by (simp add: wellFormed_pushItem)
    qed
  qed
next
  case (5 depth config sanitizedObject h)
  then show ?case by simp
next
  case (6 depth config key keys sanitizedObject h)
  show ?case
  proof
    assume wf: "wellFormed h"
    show "wellFormed (snd (forEachKey depth config (key # keys) sanitizedObject h))"
    proof (cases "isSensitive config key")
      case True
      with "6.IH"(1)[OF True] wf show ?thesis by (simp add: wellFormed_setProperty)
    next
      case False
      show ?thesis
      proof (cases "readProperty h sanitizedObject key")
        case (HStr s)
        with "6.IH"(6)[OF False HStr] wf False show ?thesis
          by (simp add: wellFormed_setProperty)
      next
        case (HRef b)
        obtain r h' where step: "sanitizeDataS depth config (HRef b) h = (r, h')"
          by (cases "sanitizeDataS depth config (HRef b) h")
        from "6.IH"(7)[OF False HRef] step wf have wf': "wellFormed h'" by (metis snd_conv)
        show ?thesis
        proof (cases r)
          case (Inl ex)
          with step wf' False HRef show ?thesis by simp
        next
          case (Inr v)
          with "6.IH"(8)[OF False HRef step[symmetric] Inr] step wf' False HRef
          show ?thesis by (simp add: wellFormed_setProperty)
        qed
      next
        case HUndefined
        with "6.IH"(2)[OF False HUndefined] wf False show ?thesis by simp
      next
        case HNull
        with "6.IH"(3)[OF False HNull] wf False show ?thesis by simp
      next
        case (HBool b)
        with "6.IH"(4)[OF False HBool] wf False show ?thesis by simp
      next
        case (HNum n)
        with "6.IH"(5)[OF False HNum] wf False show ?thesis by simp
      qed
    qed
  qed
qed


lemma refersFrom_mono: "n \<le> m \<Longrightarrow> refersFrom m obj \<Longrightarrow> refersFrom n obj"
  by (auto simp: refersFrom_def list_all_iff split: hval.splits)

lemma closedFrom_length: "closedFrom (length h) h"
  by (simp add: closedFrom_def)

lemma closedFrom_extend:
  assumes "r \<le> length h" and "prefix h h'" and "list_all (refersFrom r) (drop r h)"
    and "closedFrom (length h) h'"
  shows "list_all (refersFrom r) (drop r h')"
proof -
  from assms(2) obtain ext where h': "h' = h @ ext" by (auto simp: prefix_def)
  with assms(4) have "list_all (refersFrom (length h)) ext" by (simp add: closedFrom_def)
  then have "list_all (refersFrom r) ext"
    using assms(1) by (auto simp: list_all_iff intro: refersFrom_mono)
  with assms(1,3) h' show ?thesis by simp
qed

lemma closedFrom_split:
  "r < length h \<Longrightarrow>
   closedFrom r h \<longleftrightarrow> refersFrom r (h ! r) \<and> list_all (refersFrom r) (drop (Suc r) h)"
  by (simp add: closedFrom_def Cons_nth_drop_Suc[symmetric])

lemma closedFrom_pushItem:
  assumes "closedFrom r h" and "r < length h" and "\<forall>b. v = HRef b \<longrightarrow> r \<le> b"
  shows "closedFrom r (pushItem r v h)"
proof (cases "h ! r")
  case (HArray acc)
  from assms(1,2) have "refersFrom r (h ! r)" and rest: "list_all (refersFrom r) (drop (Suc r) h)"
    by (simp_all add: closedFrom_split)
  with HArray assms(3) have "refersFrom r (HArray (acc @ [v]))"
    by (auto simp: refersFrom_def valuesOf_def split: hval.splits)
  with rest assms(2) HArray show ?thesis
    by (simp add: pushItem_def lookupObject_def closedFrom_split)
next
  case (HObject props)
  with assms show ?thesis by (simp add: pushItem_def lookupObject_def)
qed

lemma lookup_setProperty:
  "lookupObject h r = Some (HObject props) \<Longrightarrow>
   lookupObject (setProperty r key v h) r = Some (HObject (updateProperty key v props))"
  by (auto simp: setProperty_def lookupObject_def split: if_splits)

lemma above_setProperty: "drop (Suc r) (setProperty r key v h) = drop (Suc r) h"
  by (auto simp: setProperty_def split: option.splits hobj.splits)

lemma updateProperty_entries:
  "distinct (map fst props) \<Longrightarrow> (k', w) \<in> set (updateProperty k v props) \<Longrightarrow>
   (k' = k \<and> w = v) \<or> (k' \<noteq> k \<and> (k', w) \<in> set props)"
proof (induction props)
  case Nil
  then show ?case by simp
next
  case (Cons p props)
  obtain k0 w0 where p: "p = (k0, w0)" by (cases p)
  show ?case
  proof (cases "k0 = k")
    case True
    with Cons.prems p show ?thesis by (auto simp: image_iff)
  next
    case False
    with Cons p show ?thesis by auto
  qed
qed

lemma pending_update:
  assumes "distinct (map fst props)" and "pending r props (k # ks)"
    and "\<forall>b. v = HRef b \<longrightarrow> r \<le> b"
  shows "pending r (updateProperty k v props) ks"
  unfolding pending_def
proof (intro allI impI)
  fix k' b assume a: "(k', HRef b) \<in> set (updateProperty k v props) \<and> b < r"
  with updateProperty_entries[OF assms(1), of k' "HRef b" k v]
  have "(k' = k \<and> HRef b = v) \<or> (k' \<noteq> k \<and> (k', HRef b) \<in> set props)" by blast
  with a assms(2,3) show "k' \<in> set ks" by (auto simp: pending_def)
qed

lemma pending_skip:
  assumes "distinct (map fst props)" and "pending r props (k # ks)"
    and "\<forall>b. map_of props k \<noteq> Some (HRef b)"
  shows "pending r props ks"
  unfolding pending_def
proof (intro allI impI)
  fix k' b assume a: "(k', HRef b) \<in> set props \<and> b < r"
  with assms(2) have "k' \<in> set (k # ks)" by (auto simp: pending_def)
  moreover have "k' \<noteq> k"
  proof
    assume "k' = k"
    with a assms(1) have "map_of props k = Some (HRef b)" by simp
    with assms(3) show False by simp
  qed
  ultimately show "k' \<in> set ks" by simp
qed

lemma lookup_prefix:
  "prefix h h' \<Longrightarrow> lookupObject h r = Some obj \<Longrightarrow> lookupObject h' r = Some obj"
  by (auto simp: lookupObject_def prefix_def nth_append split: if_splits)


lemma store_closed:
  "wellFormed h \<and> (\<exists>v. fst (sanitizeDataS depth cfg data h) = Inr v)
     \<longrightarrow> closedFrom (length h) (snd (sanitizeDataS depth cfg data h))"
  "wellFormed h \<and> result < length h \<and> closedFrom result h
     \<and> (\<exists>v. fst (mapItems depth cfg items result h) = Inr v)
     \<longrightarrow> closedFrom result (snd (mapItems depth cfg items result h))"
  "wellFormed h \<and> sanitizedObject < length h
     \<and> list_all (refersFrom sanitizedObject) (drop (Suc sanitizedObject) h)
     \<and> (\<exists>props. lookupObject h sanitizedObject = Some (HObject props)
                 \<and> pending sanitizedObject props keys)
     \<and> (\<exists>v. fst (forEachKey depth cfg keys sanitizedObject h) = Inr v)
     \<longrightarrow> closedFrom sanitizedObject (snd (forEachKey depth cfg keys sanitizedObject h))"
proof (induction depth cfg data h and depth cfg items result h
         and depth cfg keys sanitizedObject h
       rule: sanitizeDataS_mapItems_forEachKey.induct)
  case (1 config data h)
  then show ?case by simp
next
  case (2 depth config data h)
  show ?case
  proof
    assume a: "wellFormed h \<and> (\<exists>v. fst (sanitizeDataS (Suc depth) config data h) = Inr v)"
    then have wf: "wellFormed h" by simp
    show "closedFrom (length h) (snd (sanitizeDataS (Suc depth) config data h))"
    proof (cases data)
      case (HStr s)
      then show ?thesis by (simp add: closedFrom_length split: option.splits)
    next
      case (HRef a0)
      show ?thesis
      proof (cases "lookupObject h a0")
        case None
        with HRef a show ?thesis by simp
      next
        case (Some obj)
        show ?thesis
        proof (cases obj)
          case (HArray items)
          let ?h1 = "h @ [HArray []]"
          have run: "sanitizeDataS (Suc depth) config data h
                     = mapItems depth config items (length h) ?h1"
            using HRef Some HArray by (simp add: allocate_def)
          have "wellFormed ?h1" using wf by (simp add: wellFormed_append wellFormedObject_def)
          moreover have "closedFrom (length h) ?h1"
            by (simp add: closedFrom_def refersFrom_def valuesOf_def)
          ultimately show ?thesis
            using "2.IH"(1)[OF HRef Some HArray, unfolded allocate_def, OF refl] a run
            by simp
        next
          case (HObject props)
          let ?kept = "filter (\<lambda>(key, v). \<not> isSkipped config key) props"
          let ?h2 = "(h @ [HObject props])[length h := HObject ?kept]"
          have run: "sanitizeDataS (Suc depth) config data h
                     = forEachKey depth config (map fst ?kept) (length h) ?h2"
            using HRef Some HObject by (simp add: allocate_def Let_def)
          from wellFormed_lookup[OF wf Some] HObject have d: "distinct (map fst props)"
            by (simp add: wellFormedObject_def)
          then have "distinct (map fst ?kept)" by (simp add: distinct_map_filter)
          then have wf2: "wellFormed ?h2"
            using wf d by (simp add: wellFormed_update wellFormed_append wellFormedObject_def)
          have lk: "lookupObject ?h2 (length h) = Some (HObject ?kept)"
            by (simp add: lookupObject_def)
          have pe: "pending (length h) ?kept (map fst ?kept)"
            by (force simp: pending_def)
          have ab: "list_all (refersFrom (length h)) (drop (Suc (length h)) ?h2)" by simp
          show ?thesis
            using "2.IH"(2)[OF HRef Some HObject, unfolded allocate_def, OF refl refl refl]
              wf2 lk pe ab a run
            by simp
        qed
      qed
    qed (simp_all add: closedFrom_length)
  qed
next
  case (3 depth config result h)
  then show ?case by simp
next
  case (4 depth config item items result h)
  show ?case
  proof
    assume a: "wellFormed h \<and> result < length h \<and> closedFrom result h
       \<and> (\<exists>v. fst (mapItems depth config (item # items) result h) = Inr v)"
    obtain r h' where step:
      "(if isReference item then sanitizeDataS depth config item h else (Inr item, h)) = (r, h')"
      by (cases "if isReference item then sanitizeDataS depth config item h else (Inr item, h)")
    from a step obtain v where r: "r = Inr v" by (cases r) auto
    have sub: "prefix h h' \<and> wellFormed h' \<and> closedFrom result h'
               \<and> (\<forall>b. v = HRef b \<longrightarrow> result \<le> b)"
    proof (cases "isReference item")
      case True
      with step r have s: "sanitizeDataS depth config item h = (Inr v, h')" by simp
      have p: "prefix h h'" using store_frame(1)[of h depth config item] s by simp
      have w: "wellFormed h'" using store_wellFormed(1)[of h depth config item] s a by simp
      have c: "closedFrom (length h) h'" using "4.IH"(1)[OF True] s a by simp
      have "closedFrom result h'"
        using closedFrom_extend[of result h h'] a p c by (simp add: closedFrom_def)
      moreover have "\<forall>b. v = HRef b \<longrightarrow> result \<le> b"
        using sanitizeDataS_fresh[of depth config item h] s a by auto
      ultimately show ?thesis using p w by simp
    next
      case False
      with step r have "h' = h" "v = item" by simp_all
      with False a show ?thesis by (cases item) auto
    qed
    then have len: "result < length h'" using a by (auto dest: prefix_length_le)
    have "closedFrom result (pushItem result v h')"
      using sub len by (intro closedFrom_pushItem) auto
    moreover have "wellFormed (pushItem result v h')" using sub by (simp add: wellFormed_pushItem)
    moreover have "result < length (pushItem result v h')" using len by (simp add: length_pushItem)
    ultimately show "closedFrom result (snd (mapItems depth config (item # items) result h))"
      using "4.IH"(2)[OF step[symmetric] r] a step r by simp
  qed
next
  case (5 depth config sanitizedObject h)
  show ?case
  proof
    assume a: "wellFormed h \<and> sanitizedObject < length h
     \<and> list_all (refersFrom sanitizedObject) (drop (Suc sanitizedObject) h)
     \<and> (\<exists>props. lookupObject h sanitizedObject = Some (HObject props)
                 \<and> pending sanitizedObject props [])
     \<and> (\<exists>v. fst (forEachKey depth config [] sanitizedObject h) = Inr v)"
    then obtain props where lk: "lookupObject h sanitizedObject = Some (HObject props)"
      and pe: "pending sanitizedObject props []" by blast
    from pe have "refersFrom sanitizedObject (HObject props)"
      by (fastforce simp: refersFrom_def valuesOf_def pending_def list_all_iff
          split: hval.splits)
    moreover from lk a have "h ! sanitizedObject = HObject props"
      by (simp add: lookupObject_def)
    ultimately show "closedFrom sanitizedObject (snd (forEachKey depth config [] sanitizedObject h))"
      using a by (simp add: closedFrom_split)
  qed
next
  case (6 depth config key keys sanitizedObject h)
  show ?case
  proof
    assume a: "wellFormed h \<and> sanitizedObject < length h
     \<and> list_all (refersFrom sanitizedObject) (drop (Suc sanitizedObject) h)
     \<and> (\<exists>props. lookupObject h sanitizedObject = Some (HObject props)
                 \<and> pending sanitizedObject props (key # keys))
     \<and> (\<exists>v. fst (forEachKey depth config (key # keys) sanitizedObject h) = Inr v)"
    then obtain props where lk: "lookupObject h sanitizedObject = Some (HObject props)"
      and pe: "pending sanitizedObject props (key # keys)" by blast
    from a have wf: "wellFormed h" and len: "sanitizedObject < length h"
      and ab: "list_all (refersFrom sanitizedObject) (drop (Suc sanitizedObject) h)"
      by simp_all
    from wellFormed_lookup[OF wf lk] have d: "distinct (map fst props)"
      by (simp add: wellFormedObject_def)
    have rd: "readProperty h sanitizedObject key
              = (case map_of props key of Some v \<Rightarrow> v | None \<Rightarrow> HUndefined)"
      using lk by (simp add: readProperty_def)
    \<comment> \<open>Storing a value that is no old address keeps what the loop needs.\<close>
    have upd: "wellFormed (setProperty sanitizedObject key v h1)
        \<and> sanitizedObject < length (setProperty sanitizedObject key v h1)
        \<and> list_all (refersFrom sanitizedObject)
             (drop (Suc sanitizedObject) (setProperty sanitizedObject key v h1))
        \<and> (\<exists>props'. lookupObject (setProperty sanitizedObject key v h1) sanitizedObject
                        = Some (HObject props')
                     \<and> pending sanitizedObject props' keys)"
      if "wellFormed h1" "sanitizedObject < length h1"
        "list_all (refersFrom sanitizedObject) (drop (Suc sanitizedObject) h1)"
        "lookupObject h1 sanitizedObject = Some (HObject props)"
        "\<forall>b. v = HRef b \<longrightarrow> sanitizedObject \<le> b"
      for v h1
      using that lookup_setProperty[OF that(4), of key v] pending_update[OF d pe that(5)]
      by (simp add: wellFormed_setProperty length_setProperty above_setProperty)
    have skip: "pending sanitizedObject props keys"
      if "\<forall>b. readProperty h sanitizedObject key \<noteq> HRef b"
    proof -
      have "\<forall>b. map_of props key \<noteq> Some (HRef b)"
      proof (intro allI notI)
        fix b assume "map_of props key = Some (HRef b)"
        with rd have "readProperty h sanitizedObject key = HRef b" by simp
        with that show False by simp
      qed
      with pending_skip[OF d pe] show ?thesis by simp
    qed
    show "closedFrom sanitizedObject
            (snd (forEachKey depth config (key # keys) sanitizedObject h))"
    proof (cases "isSensitive config key")
      case True
      from upd[OF wf len ab lk, of "HStr (maskValue config)"] "6.IH"(1)[OF True] a True
      show ?thesis by simp
    next
      case False
      show ?thesis
      proof (cases "readProperty h sanitizedObject key")
        case (HStr s)
        from upd[OF wf len ab lk, of "HStr (processString config s)"]
          "6.IH"(6)[OF False HStr] a False HStr
        show ?thesis by simp
      next
        case (HRef b0)
        obtain r h' where step: "sanitizeDataS depth config (HRef b0) h = (r, h')"
          by (cases "sanitizeDataS depth config (HRef b0) h")
        from a step False HRef obtain v where r: "r = Inr v" by (cases r) auto
        have p: "prefix h h'" using store_frame(1)[of h depth config "HRef b0"] step by simp
        have w: "wellFormed h'"
          using store_wellFormed(1)[of h depth config "HRef b0"] step wf by simp
        have c: "closedFrom (length h) h'" using "6.IH"(7)[OF False HRef] step r wf by simp
        have ab': "list_all (refersFrom sanitizedObject) (drop (Suc sanitizedObject) h')"
        proof -
          from p obtain ext where h': "h' = h @ ext" by (auto simp: prefix_def)
          with c have "list_all (refersFrom (length h)) ext" by (simp add: closedFrom_def)
          then have "list_all (refersFrom sanitizedObject) ext"
            using len by (auto simp: list_all_iff intro: refersFrom_mono[OF less_imp_le])
          with ab len h' show ?thesis by simp
        qed
        have len': "sanitizedObject < length h'" using p len by (auto dest: prefix_length_le)
        have lk': "lookupObject h' sanitizedObject = Some (HObject props)"
          using lookup_prefix[OF p lk] .
        have fr: "\<forall>b. v = HRef b \<longrightarrow> sanitizedObject \<le> b"
          using sanitizeDataS_fresh[of depth config "HRef b0" h] step r len by auto
        from upd[OF w len' ab' lk' fr]
          "6.IH"(8)[OF False HRef step[symmetric] r] a False HRef step r
        show ?thesis by simp
      next
        case HUndefined
        have "pending sanitizedObject props keys"
          using skip HUndefined by simp
        with "6.IH"(2)[OF False HUndefined] a lk False HUndefined show ?thesis by auto
      next
        case HNull
        have "pending sanitizedObject props keys"
          using skip HNull by simp
        with "6.IH"(3)[OF False HNull] a lk False HNull show ?thesis by auto
      next
        case (HBool x)
        have "pending sanitizedObject props keys"
          using skip HBool by simp
        with "6.IH"(4)[OF False HBool] a lk False HBool show ?thesis by auto
      next
        case (HNum n)
        have "pending sanitizedObject props keys"
          using skip HNum by simp
        with "6.IH"(5)[OF False HNum] a lk False HNum show ?thesis by auto
      qed
    qed
  qed
qed

text \<open>
  Claim C10. \<^verbatim>\<open>sanitizeData\<close> writes to no object that was there before the call.
  Whatever the call does (return, or throw when the recursion is too deep), the store
  after it starts with the store before it: the argument and every object and array
  below it are what they were, and the call has only added objects. The object or array
  that it returns is one of those it added. When the call returns, in a store whose
  objects have each key once, no object that it added holds the address of an object
  that was there before: the result is made of new objects at every level.
\<close>

theorem sanitizeData_leaves_its_argument:
  "prefix h (snd (sanitizeDataS depth cfg data h)) \<and>
   (\<forall>b. fst (sanitizeDataS depth cfg data h) = Inr (HRef b) \<longrightarrow>
          length h \<le> b \<and> b < length (snd (sanitizeDataS depth cfg data h))) \<and>
   (wellFormed h \<and> (\<exists>v. fst (sanitizeDataS depth cfg data h) = Inr v) \<longrightarrow>
      closedFrom (length h) (snd (sanitizeDataS depth cfg data h)))"
  using store_frame(1) sanitizeDataS_fresh store_closed(1) by blast

theorem sanitizeData_leaves_its_argument_witness:
  "wellFormed [HObject [(''password'', HStr ''xyz'')],
               HObject [(''token'', HStr ''abc123''), (''nested'', HRef 0)]] \<and>
   sanitizeDataS 5 defaultSanitizationParams (HRef 1)
     [HObject [(''password'', HStr ''xyz'')],
      HObject [(''token'', HStr ''abc123''), (''nested'', HRef 0)]]
   = (Inr (HRef 2),
      [HObject [(''password'', HStr ''xyz'')],
       HObject [(''token'', HStr ''abc123''), (''nested'', HRef 0)],
       HObject [(''token'', HStr ''********''), (''nested'', HRef 3)],
       HObject [(''password'', HStr ''********'')]]) \<and>
   prefix [HObject [(''password'', HStr ''xyz'')],
           HObject [(''token'', HStr ''abc123''), (''nested'', HRef 0)]]
     (snd (sanitizeDataS 5 defaultSanitizationParams (HRef 1)
        [HObject [(''password'', HStr ''xyz'')],
         HObject [(''token'', HStr ''abc123''), (''nested'', HRef 0)]])) \<and>
   closedFrom 2
     (snd (sanitizeDataS 5 defaultSanitizationParams (HRef 1)
        [HObject [(''password'', HStr ''xyz'')],
         HObject [(''token'', HStr ''abc123''), (''nested'', HRef 0)]]))"
proof -
  let ?h = "[HObject [(''password'', HStr ''xyz'')],
             HObject [(''token'', HStr ''abc123''), (''nested'', HRef 0)]]"
  have wf: "wellFormed ?h" by code_simp
  have run: "sanitizeDataS 5 defaultSanitizationParams (HRef 1) ?h
   = (Inr (HRef 2),
      [HObject [(''password'', HStr ''xyz'')],
       HObject [(''token'', HStr ''abc123''), (''nested'', HRef 0)],
       HObject [(''token'', HStr ''********''), (''nested'', HRef 3)],
       HObject [(''password'', HStr ''********'')]])"
    by code_simp
  have len: "length ?h = 2" by simp
  from sanitizeData_leaves_its_argument[of ?h 5 defaultSanitizationParams "HRef 1"] run wf len
  show ?thesis by (metis fst_conv)
qed

end
